theory Spec2Isabelle
  imports Main
begin

section \<open>The SSH tunnel manager (pgcli/ssh\_tunnel.py)\<close>

text \<open>
  Python strings are modelled as \<open>string\<close>, one \<open>char\<close> per code point, for code points
  below 256. The forwarder object of the \<open>sshtunnel\<close> library is a record of the two
  attributes the source reads. Calls into the library are recorded in an event trace, so
  that "is called exactly once" is a statement about the trace. The exceptions that can
  leave the program are \<open>ValueError\<close> (from \<open>int()\<close> and from reading the port of a
  URL), \<open>re.error\<close> (\<open>PatternError\<close>, carrying the pattern) and
  \<open>KeyboardInterrupt\<close>, which is not an \<open>Exception\<close> and so passes through
  \<open>except Exception\<close>.
\<close>

datatype error =
    ValueError string
  | PatternError string
  | KeyboardInterrupt

datatype event =
    ForwarderStart
  | ForwarderStop
  | RunCommand "string list"

record forwarder =
  is_active :: bool
  local_bind_port :: int

record manager =
  ssh_tunnel_url :: "string option"
  ssh_tunnel_config :: "(string \<times> string) list"
  dsn_ssh_tunnel_config :: "(string \<times> string) list"
  tunnel :: "forwarder option"
  allow_agent :: bool

subsection \<open>Python's \<open>re.fullmatch\<close>\<close>

text \<open>
  The rule patterns are regular expressions of Python's \<open>re\<close> module, which is a library
  and not part of the program. \<open>re.fullmatch\<close> is therefore a parameter of the model, a
  \<open>matcher\<close>: \<open>fullmatch pat s\<close> is \<open>None\<close> when \<^verbatim>\<open>re.fullmatch(pat, s)\<close> raises
  \<open>re.error\<close>, and \<open>Some b\<close> when it returns, \<open>b\<close> being the truth value of what it
  returns (a match object, or \<open>None\<close> for no match). The functions of the program take
  the matcher as their first argument; what is proved of them for every matcher holds
  for \<open>re.fullmatch\<close>, whatever syntax the rule patterns use.
\<close>

type_synonym matcher = "string \<Rightarrow> string \<Rightarrow> bool option"

subsection \<open>The meaning of a fragment of the pattern syntax\<close>

text \<open>
  To say what matching the entire string means, and for the examples, the meaning of a
  fragment of the pattern syntax is written out. A pattern of the fragment is a sequence
  of single-character atoms, each optionally followed by one of the greedy quantifiers
  \<open>*\<close>, \<open>+\<close>, \<open>?\<close>. An atom is an ordinary character, a backslash followed by a
  character that is not an ASCII letter or digit (the character itself), or a dot (any
  character except a newline, no flags being passed). \<open>re_compile pat = None\<close> says that
  \<open>pat\<close> lies outside the fragment, as anchors, classes, groups, alternation, braces,
  escaped letters and digits, lazy and possessive quantifiers do, and as the patterns do
  that \<open>re\<close> rejects; it says nothing about what \<open>re.fullmatch\<close> does with \<open>pat\<close>.
\<close>

datatype atom = Lit char | AnyChar

datatype quant = Once | Star | Plus | Opt

datatype tok = TAtom atom | TQuant quant

type_synonym item = "atom \<times> quant"

definition backslash :: char where
  "backslash = CHR 0x5C"

definition re_special :: "char \<Rightarrow> bool" where
  "re_special c = (c \<in> set ''.^$*+?{}[]|()'' \<or> c = backslash)"

definition ascii_alnum :: "char \<Rightarrow> bool" where
  "ascii_alnum c =
     (let n = (of_char c :: nat)
      in (48 \<le> n \<and> n \<le> 57) \<or> (65 \<le> n \<and> n \<le> 90) \<or> (97 \<le> n \<and> n \<le> 122))"

fun re_lex :: "string \<Rightarrow> tok list option" where
  "re_lex [] = Some []"
| "re_lex (c # cs) =
     (if c = backslash then
        (case cs of
           [] \<Rightarrow> None
         | d # ds \<Rightarrow>
             if ascii_alnum d then None
             else map_option (Cons (TAtom (Lit d))) (re_lex ds))
      else if c = CHR ''.'' then map_option (Cons (TAtom AnyChar)) (re_lex cs)
      else if c = CHR ''*'' then map_option (Cons (TQuant Star)) (re_lex cs)
      else if c = CHR ''+'' then map_option (Cons (TQuant Plus)) (re_lex cs)
      else if c = CHR ''?'' then map_option (Cons (TQuant Opt)) (re_lex cs)
      else if re_special c then None
      else map_option (Cons (TAtom (Lit c))) (re_lex cs))"

fun re_group :: "tok list \<Rightarrow> item list option" where
  "re_group [] = Some []"
| "re_group (TAtom a # TQuant q # ts) = map_option (Cons (a, q)) (re_group ts)"
| "re_group (TAtom a # ts) = map_option (Cons (a, Once)) (re_group ts)"
| "re_group (TQuant q # ts) = None"

definition re_compile :: "string \<Rightarrow> item list option" where
  "re_compile pat = (case re_lex pat of None \<Rightarrow> None | Some ts \<Rightarrow> re_group ts)"

fun atom_ok :: "atom \<Rightarrow> char \<Rightarrow> bool" where
  "atom_ok (Lit l) c = (c = l)"
| "atom_ok AnyChar c = (c \<noteq> CHR 0x0A)"

text \<open>
  The matcher tries every way of dividing the string among the items, as the
  backtracking of \<open>re\<close> does; it accepts only when the items are used up exactly at the
  end of the string.
\<close>

fun match_items :: "item list \<Rightarrow> string \<Rightarrow> bool" where
  "match_items [] s = (s = [])"
| "match_items ((a, Once) # r) [] = False"
| "match_items ((a, Once) # r) (c # cs) = (atom_ok a c \<and> match_items r cs)"
| "match_items ((a, Opt) # r) [] = match_items r []"
| "match_items ((a, Opt) # r) (c # cs) =
     (match_items r (c # cs) \<or> (atom_ok a c \<and> match_items r cs))"
| "match_items ((a, Star) # r) [] = match_items r []"
| "match_items ((a, Star) # r) (c # cs) =
     (match_items r (c # cs) \<or> (atom_ok a c \<and> match_items ((a, Star) # r) cs))"
| "match_items ((a, Plus) # r) [] = False"
| "match_items ((a, Plus) # r) (c # cs) = (atom_ok a c \<and> match_items ((a, Star) # r) cs)"

text \<open>
  \<open>on_fragment fullmatch\<close> says that a matcher gives the patterns of the fragment this
  meaning, as \<open>re.fullmatch\<close> does. \<open>fragment_matcher\<close> is the matcher of the examples,
  whose patterns all lie in the fragment; it is such a matcher, and it is not
  \<open>re.fullmatch\<close> outside the fragment.
\<close>

definition on_fragment :: "matcher \<Rightarrow> bool" where
  "on_fragment fullmatch =
     (\<forall>pat its s. re_compile pat = Some its \<longrightarrow> fullmatch pat s = Some (match_items its s))"

definition fragment_matcher :: matcher where
  "fragment_matcher pat s = map_option (\<lambda>its. match_items its s) (re_compile pat)"

text \<open>
  The language of a compiled pattern, written independently of the matcher: a word is the
  concatenation of one block per item, every character of a block accepted by the item's
  atom and the block's length allowed by the item's quantifier.
\<close>

fun count_ok :: "quant \<Rightarrow> nat \<Rightarrow> bool" where
  "count_ok Once n = (n = 1)"
| "count_ok Star n = True"
| "count_ok Plus n = (1 \<le> n)"
| "count_ok Opt n = (n \<le> 1)"

definition item_lang :: "item \<Rightarrow> string set" where
  "item_lang it = {w. (\<forall>c \<in> set w. atom_ok (fst it) c) \<and> count_ok (snd it) (length w)}"

fun lang :: "item list \<Rightarrow> string set" where
  "lang [] = {[]}"
| "lang (it # its) = {u @ v | u v. u \<in> item_lang it \<and> v \<in> lang its}"

subsection \<open>Rule lookup\<close>

text \<open>
  The two rule dictionaries are association lists in insertion order, which is the order
  \<open>dict.items()\<close> iterates in. \<open>scan_rules\<close> is the loop
  \<^verbatim>\<open>for regex, tunnel_url in cfg.items(): if re.fullmatch(regex, s): return tunnel_url\<close>,
  which the source writes once for the alias rules and once for the host rules.
  \<open>truthy\<close> is Python's truth value of an \<open>Optional[str]\<close>.
\<close>

fun scan_rules ::
  "matcher \<Rightarrow> (string \<times> string) list \<Rightarrow> string \<Rightarrow> error + string option"
where
  "scan_rules fullmatch [] s = Inr None"
| "scan_rules fullmatch ((regex, tunnel_url) # rules) s =
     (case fullmatch regex s of
        None \<Rightarrow> Inl (PatternError regex)
      | Some True \<Rightarrow> Inr (Some tunnel_url)
      | Some False \<Rightarrow> scan_rules fullmatch rules s)"

fun truthy :: "string option \<Rightarrow> bool" where
  "truthy None = False"
| "truthy (Some s) = (s \<noteq> [])"

definition find_tunnel_url ::
  "matcher \<Rightarrow> manager \<Rightarrow> string option \<Rightarrow> string option \<Rightarrow> error + string option"
where
  "find_tunnel_url fullmatch m host dsn_alias =
     (if truthy (ssh_tunnel_url m) then Inr (ssh_tunnel_url m)
      else
        case (if truthy dsn_alias \<and> dsn_ssh_tunnel_config m \<noteq> []
              then scan_rules fullmatch (dsn_ssh_tunnel_config m) (the dsn_alias)
              else Inr None) of
          Inl e \<Rightarrow> Inl e
        | Inr (Some u) \<Rightarrow> Inr (Some u)
        | Inr None \<Rightarrow>
            if truthy host \<and> ssh_tunnel_config m \<noteq> []
            then scan_rules fullmatch (ssh_tunnel_config m) (the host)
            else Inr None)"

text \<open>
  Notions of the specification. \<open>first_match\<close> is the URL of the first rule, in
  declaration order, whose pattern fully matches the candidate string; a candidate that is
  absent or empty matches nothing. \<open>no_pattern_error\<close> says that \<open>re.fullmatch\<close> raises
  for no pattern of the rules on the candidate.
\<close>

definition first_match :: "matcher \<Rightarrow> (string \<times> string) list \<Rightarrow> string option \<Rightarrow> string option" where
  "first_match fullmatch rules cand =
     (case cand of
        None \<Rightarrow> None
      | Some s \<Rightarrow>
          if s = [] then None
          else map_option snd (find (\<lambda>rule. fullmatch (fst rule) s = Some True) rules))"



text \<open>
  \<open>stop_tunnel\<close>: \<open>if self.tunnel and self.tunnel.is_active\<close> calls \<open>self.tunnel.stop()\<close>
  and sets \<open>self.tunnel = None\<close>; otherwise nothing happens.
\<close>

fun stop_tunnel :: "manager \<times> event list \<Rightarrow> manager \<times> event list" where
  "stop_tunnel (m, tr) =
     (case tunnel m of
        None \<Rightarrow> (m, tr)
      | Some t \<Rightarrow>
          if is_active t then (m\<lparr>tunnel := None\<rparr>, tr @ [ForwarderStop])
          else (m, tr))"

definition active :: "manager \<Rightarrow> bool" where
  "active m = (case tunnel m of None \<Rightarrow> False | Some t \<Rightarrow> is_active t)"

definition stops :: "event list \<Rightarrow> nat" where
  "stops tr = length (filter (\<lambda>e. e = ForwarderStop) tr)"

subsection \<open>Example configurations\<close>


definition prod_rule :: manager where
  "prod_rule = \<lparr>ssh_tunnel_url = None,
     ssh_tunnel_config =
       [(''db'' @ [backslash] @ ''.prod'' @ [backslash] @ ''.com'', ''ssh://bastion:22'')],
     dsn_ssh_tunnel_config = [],
     tunnel = None, allow_agent = True\<rparr>"

section \<open>The argument parser and rewriter (pgcli/dumpall.py)\<close>

subsection \<open>Python string operations\<close>

text \<open>
  \<open>isspace\<close> is \<open>str.isspace\<close> on the code points below 256; these are the separators
  of \<open>str.split()\<close> without arguments. \<open>int_space\<close> is the smaller set that \<open>int()\<close>
  strips from both ends of its argument (it leaves the separators U+001C to U+001F).
\<close>

definition isspace :: "char \<Rightarrow> bool" where
  "isspace c = ((of_char c :: nat) \<in> {9, 10, 11, 12, 13, 28, 29, 30, 31, 32, 133, 160})"

definition int_space :: "char \<Rightarrow> bool" where
  "int_space c = ((of_char c :: nat) \<in> {9, 10, 11, 12, 13, 32, 133, 160})"

definition startswith :: "string \<Rightarrow> string \<Rightarrow> bool" where
  "startswith s p = (take (length p) s = p)"

text \<open>\<open>py_in sub s\<close> is the substring test \<open>sub in s\<close>.\<close>

fun py_in :: "string \<Rightarrow> string \<Rightarrow> bool" where
  "py_in sub [] = (sub = [])"
| "py_in sub (c # cs) = (startswith (c # cs) sub \<or> py_in sub cs)"

text \<open>
  \<open>after_eq s\<close> is \<open>s.split("=", 1)[1]\<close>, the text after the first \<open>=\<close>. The source
  evaluates it only on strings that start with a key ending in \<open>=\<close>, so the index 1
  exists at every call.
\<close>

definition after_eq :: "string \<Rightarrow> string" where
  "after_eq s = tl (dropWhile (\<lambda>c. c \<noteq> CHR ''='') s)"

text \<open>
  \<open>py_split s\<close> is \<open>s.split()\<close>: the maximal runs of non-whitespace characters, in
  order. \<open>split_ws cur s\<close> carries the field being read.
\<close>

fun split_ws :: "string \<Rightarrow> string \<Rightarrow> string list" where
  "split_ws cur [] = (if cur = [] then [] else [cur])"
| "split_ws cur (c # cs) =
     (if isspace c then (if cur = [] then split_ws [] cs else cur # split_ws [] cs)
      else split_ws (cur @ [c]) cs)"

definition py_split :: "string \<Rightarrow> string list" where
  "py_split s = split_ws [] s"

fun py_join :: "string \<Rightarrow> string list \<Rightarrow> string" where
  "py_join sep [] = []"
| "py_join sep [x] = x"
| "py_join sep (x # y # ys) = x @ sep @ py_join sep (y # ys)"

text \<open>
  \<open>py_int s\<close> is \<open>int(s)\<close> for a string: surrounding whitespace is stripped, one sign is
  allowed, then decimal digits follow, with single underscores allowed between digits.
  \<open>None\<close> stands for the \<open>ValueError\<close>. The interpreter's configurable bound on the
  number of digits of a literal is not modelled. \<open>py_str\<close> is \<open>str(n)\<close> for an integer,
  which is also what an f-string prints.
\<close>

definition is_digit :: "char \<Rightarrow> bool" where
  "is_digit c = (48 \<le> (of_char c :: nat) \<and> (of_char c :: nat) \<le> 57)"

definition digit_val :: "char \<Rightarrow> nat" where
  "digit_val c = of_char c - 48"

fun py_digits :: "string \<Rightarrow> nat \<Rightarrow> nat option" where
  "py_digits [] acc = Some acc"
| "py_digits (c # cs) acc =
     (if is_digit c then py_digits cs (10 * acc + digit_val c)
      else if c = CHR ''_'' \<and> cs \<noteq> [] \<and> is_digit (hd cs) then py_digits cs acc
      else None)"

definition py_nat :: "string \<Rightarrow> nat option" where
  "py_nat s = (if s \<noteq> [] \<and> is_digit (hd s) then py_digits s 0 else None)"

definition strip :: "string \<Rightarrow> string" where
  "strip s = rev (dropWhile int_space (rev (dropWhile int_space s)))"

definition py_int :: "string \<Rightarrow> int option" where
  "py_int s =
     (case strip s of
        [] \<Rightarrow> None
      | c # cs \<Rightarrow>
          if c = CHR ''-'' then map_option (\<lambda>n. - int n) (py_nat cs)
          else if c = CHR ''+'' then map_option int (py_nat cs)
          else map_option int (py_nat (c # cs)))"

definition digit_char :: "nat \<Rightarrow> char" where
  "digit_char d = ''0123456789'' ! d"

function str_nat :: "nat \<Rightarrow> string" where
  "str_nat n = (if n < 10 then [digit_char n] else str_nat (n div 10) @ [digit_char (n mod 10)])"
  by pat_completeness auto
termination
  by (relation "measure (\<lambda>n. n)") auto

definition py_str :: "int \<Rightarrow> string" where
  "py_str i = (if i < 0 then CHR ''-'' # str_nat (nat (- i)) else str_nat (nat i))"

subsection \<open>\<open>parse_connection_args\<close>\<close>

text \<open>
  The environment is a dictionary. \<open>parse_parts\<close> is the loop over
  \<open>dbname.split()\<close>, which the source writes once for \<open>-d\<close>/\<open>--dbname\<close> and once for
  \<open>--dbname=\<close>. \<open>parse_loop\<close> is the \<open>while i < len(args)\<close> loop on the tokens from
  index \<open>i\<close> on: \<open>rest \<noteq> []\<close> is \<open>i + 1 < len(args)\<close>, \<open>hd rest\<close> is \<open>args[i + 1]\<close>,
  and continuing with \<open>tl rest\<close> is \<open>i += 2\<close>. A flag that lacks its value falls through
  to the last branch, as in the source.
\<close>

type_synonym environ = "string \<rightharpoonup> string"

type_synonym parsed = "string \<times> int \<times> string list \<times> bool \<times> bool"

fun parse_parts ::
  "string list \<Rightarrow> string \<Rightarrow> int \<Rightarrow> bool \<Rightarrow> bool \<Rightarrow> error + (string \<times> int \<times> bool \<times> bool)"
where
  "parse_parts [] host port has_host has_port = Inr (host, port, has_host, has_port)"
| "parse_parts (part # parts) host port has_host has_port =
     (if startswith part ''host='' then
        parse_parts parts (after_eq part) port True has_port
      else if startswith part ''port='' then
        (case py_int (after_eq part) of
           None \<Rightarrow> Inl (ValueError (after_eq part))
         | Some n \<Rightarrow> parse_parts parts host n has_host True)
      else parse_parts parts host port has_host has_port)"

definition parse_dbname ::
  "string \<Rightarrow> string \<Rightarrow> int \<Rightarrow> bool \<Rightarrow> bool \<Rightarrow> error + (string \<times> int \<times> bool \<times> bool)"
where
  "parse_dbname dbname host port has_host has_port =
     (if py_in ''host='' dbname then parse_parts (py_split dbname) host port has_host has_port
      else Inr (host, port, has_host, has_port))"

function parse_loop ::
  "string list \<Rightarrow> string \<Rightarrow> int \<Rightarrow> string list \<Rightarrow> bool \<Rightarrow> bool \<Rightarrow> error + parsed"
where
  "parse_loop [] host port remaining_args has_host has_port =
     Inr (host, port, remaining_args, has_host, has_port)"
| "parse_loop (arg # rest) host port remaining_args has_host has_port =
     (if (arg = ''-h'' \<or> arg = ''--host'') \<and> rest \<noteq> [] then
        parse_loop (tl rest) (hd rest) port (remaining_args @ [arg, hd rest]) True has_port
      else if \<not> (arg = ''-h'' \<or> arg = ''--host'') \<and> startswith arg ''--host='' then
        parse_loop rest (after_eq arg) port (remaining_args @ [arg]) True has_port
      else if (arg = ''-p'' \<or> arg = ''--port'') \<and> rest \<noteq> [] then
        (case py_int (hd rest) of
           None \<Rightarrow> Inl (ValueError (hd rest))
         | Some n \<Rightarrow>
             parse_loop (tl rest) host n (remaining_args @ [arg, hd rest]) has_host True)
      else if \<not> (arg = ''-p'' \<or> arg = ''--port'') \<and> startswith arg ''--port='' then
        (case py_int (after_eq arg) of
           None \<Rightarrow> Inl (ValueError (after_eq arg))
         | Some n \<Rightarrow> parse_loop rest host n (remaining_args @ [arg]) has_host True)
      else if (arg = ''-d'' \<or> arg = ''--dbname'') \<and> rest \<noteq> [] then
        (case parse_dbname (hd rest) host port has_host has_port of
           Inl e \<Rightarrow> Inl e
         | Inr (host', port', has_host', has_port') \<Rightarrow>
             parse_loop (tl rest) host' port' (remaining_args @ [arg, hd rest])
               has_host' has_port')
      else if \<not> (arg = ''-d'' \<or> arg = ''--dbname'') \<and> startswith arg ''--dbname='' then
        (case parse_dbname (after_eq arg) host port has_host has_port of
           Inl e \<Rightarrow> Inl e
         | Inr (host', port', has_host', has_port') \<Rightarrow>
             parse_loop rest host' port' (remaining_args @ [arg]) has_host' has_port')
      else parse_loop rest host port (remaining_args @ [arg]) has_host has_port)"
  by pat_completeness auto
termination
  by (relation "measure (\<lambda>(args, host, port, remaining_args, has_host, has_port). length args)")
    simp_all

definition parse_connection_args :: "environ \<Rightarrow> string list \<Rightarrow> error + parsed" where
  "parse_connection_args env args =
     (let host = (case env ''PGHOST'' of None \<Rightarrow> ''localhost'' | Some h \<Rightarrow> h)
      in case (case env ''PGPORT'' of None \<Rightarrow> Some 5432 | Some t \<Rightarrow> py_int t) of
           None \<Rightarrow> Inl (ValueError (the (env ''PGPORT'')))
         | Some port \<Rightarrow> parse_loop args host port [] False False)"

subsection \<open>\<open>build_tunneled_args\<close>\<close>

text \<open>
  \<open>new_parts\<close> is the loop that rebuilds the fields of a connection string, written
  twice in the source. In \<open>build_loop\<close> a host or port flag always advances by two, also
  when it is the last token (\<open>tl [] = []\<close>: the index passes the end and the loop stops).
\<close>

fun new_parts :: "string list \<Rightarrow> string \<Rightarrow> int \<Rightarrow> string list" where
  "new_parts [] tunnel_host tunnel_port = []"
| "new_parts (part # parts) tunnel_host tunnel_port =
     (if startswith part ''host='' then ''host='' @ tunnel_host
      else if startswith part ''port='' then ''port='' @ py_str tunnel_port
      else part) # new_parts parts tunnel_host tunnel_port"

function build_loop :: "string list \<Rightarrow> string \<Rightarrow> int \<Rightarrow> string list \<Rightarrow> string list" where
  "build_loop [] tunnel_host tunnel_port new_args = new_args"
| "build_loop (arg # rest) tunnel_host tunnel_port new_args =
     (if arg = ''-h'' \<or> arg = ''--host'' then
        build_loop (tl rest) tunnel_host tunnel_port (new_args @ [''-h'', tunnel_host])
      else if startswith arg ''--host='' then
        build_loop rest tunnel_host tunnel_port (new_args @ [''--host='' @ tunnel_host])
      else if arg = ''-p'' \<or> arg = ''--port'' then
        build_loop (tl rest) tunnel_host tunnel_port (new_args @ [''-p'', py_str tunnel_port])
      else if startswith arg ''--port='' then
        build_loop rest tunnel_host tunnel_port (new_args @ [''--port='' @ py_str tunnel_port])
      else if (arg = ''-d'' \<or> arg = ''--dbname'') \<and> rest \<noteq> [] then
        (if py_in ''host='' (hd rest) then
           build_loop (tl rest) tunnel_host tunnel_port
             (new_args @
              [''-d'', py_join '' '' (new_parts (py_split (hd rest)) tunnel_host tunnel_port)])
         else build_loop (tl rest) tunnel_host tunnel_port (new_args @ [''-d'', hd rest]))
      else if \<not> (arg = ''-d'' \<or> arg = ''--dbname'') \<and> startswith arg ''--dbname='' then
        (if py_in ''host='' (after_eq arg) then
           build_loop rest tunnel_host tunnel_port
             (new_args @
              [''--dbname='' @
               py_join '' '' (new_parts (py_split (after_eq arg)) tunnel_host tunnel_port)])
         else build_loop rest tunnel_host tunnel_port (new_args @ [arg]))
      else build_loop rest tunnel_host tunnel_port (new_args @ [arg]))"
  by pat_completeness auto
termination
  by (relation "measure (\<lambda>(args, tunnel_host, tunnel_port, new_args). length args)") simp_all

definition build_tunneled_args ::
  "string list \<Rightarrow> string \<Rightarrow> int \<Rightarrow> string \<Rightarrow> int \<Rightarrow> bool \<Rightarrow> bool \<Rightarrow> string list"
where
  "build_tunneled_args original_args tunnel_host tunnel_port original_host original_port
       has_host has_port =
     (let new_args = build_loop original_args tunnel_host tunnel_port [];
          new_args = (if \<not> has_host then new_args @ [''-h'', tunnel_host] else new_args);
          new_args = (if \<not> has_port then new_args @ [''-p'', py_str tunnel_port] else new_args)
      in new_args)"

subsection \<open>Host and port occurrences\<close>

text \<open>
  The specification speaks of the occurrences of a host or a port in a token sequence,
  scanned left to right: the discrete flags in both spellings and the \<open>host=\<close> and
  \<open>port=\<close> fields of a dbname value. \<open>occs_with inspect args\<close> lists them in scan
  order, with the text of each value; \<open>inspect\<close> says which dbname values are looked
  into. In the words of the specification every dbname value is
  (\<open>spec_occurrences\<close>); \<open>occurrences\<close> looks only into the values that contain the
  text \<open>host=\<close>.
\<close>

datatype occ = HostOcc string | PortOcc string

fun part_occs :: "string list \<Rightarrow> occ list" where
  "part_occs [] = []"
| "part_occs (part # parts) =
     (if startswith part ''host='' then HostOcc (after_eq part) # part_occs parts
      else if startswith part ''port='' then PortOcc (after_eq part) # part_occs parts
      else part_occs parts)"

function occs_with :: "(string \<Rightarrow> bool) \<Rightarrow> string list \<Rightarrow> occ list" where
  "occs_with inspect [] = []"
| "occs_with inspect (arg # rest) =
     (if (arg = ''-h'' \<or> arg = ''--host'') \<and> rest \<noteq> [] then
        HostOcc (hd rest) # occs_with inspect (tl rest)
      else if startswith arg ''--host='' then HostOcc (after_eq arg) # occs_with inspect rest
      else if (arg = ''-p'' \<or> arg = ''--port'') \<and> rest \<noteq> [] then
        PortOcc (hd rest) # occs_with inspect (tl rest)
      else if startswith arg ''--port='' then PortOcc (after_eq arg) # occs_with inspect rest
      else if (arg = ''-d'' \<or> arg = ''--dbname'') \<and> rest \<noteq> [] then
        (if inspect (hd rest) then part_occs (py_split (hd rest)) else [])
        @ occs_with inspect (tl rest)
      else if startswith arg ''--dbname='' then
        (if inspect (after_eq arg) then part_occs (py_split (after_eq arg)) else [])
        @ occs_with inspect rest
      else occs_with inspect rest)"
  by pat_completeness auto
termination
  by (relation "measure (\<lambda>(inspect, args). length args)") simp_all

definition spec_occurrences :: "string list \<Rightarrow> occ list" where
  "spec_occurrences args = occs_with (\<lambda>dbname. True) args"

definition occurrences :: "string list \<Rightarrow> occ list" where
  "occurrences args = occs_with (py_in ''host='') args"

fun host_values :: "occ list \<Rightarrow> string list" where
  "host_values [] = []"
| "host_values (HostOcc v # os) = v # host_values os"
| "host_values (PortOcc t # os) = host_values os"

fun port_texts :: "occ list \<Rightarrow> string list" where
  "port_texts [] = []"
| "port_texts (HostOcc v # os) = port_texts os"
| "port_texts (PortOcc t # os) = t # port_texts os"

definition last_opt :: "'a list \<Rightarrow> 'a option" where
  "last_opt xs = (if xs = [] then None else Some (last xs))"

text \<open>
  \<open>apply_occs\<close> replays a list of occurrences on the parser's variables, converting each
  port text as the parser does.
\<close>

fun apply_occs ::
  "occ list \<Rightarrow> string \<Rightarrow> int \<Rightarrow> bool \<Rightarrow> bool \<Rightarrow> error + (string \<times> int \<times> bool \<times> bool)"
where
  "apply_occs [] host port has_host has_port = Inr (host, port, has_host, has_port)"
| "apply_occs (HostOcc v # os) host port has_host has_port =
     apply_occs os v port True has_port"
| "apply_occs (PortOcc t # os) host port has_host has_port =
     (case py_int t of
        None \<Rightarrow> Inl (ValueError t)
      | Some n \<Rightarrow> apply_occs os host n has_host True)"

definition default_host :: "environ \<Rightarrow> string" where
  "default_host env = (case env ''PGHOST'' of None \<Rightarrow> ''localhost'' | Some h \<Rightarrow> h)"

definition default_port :: "environ \<Rightarrow> int option" where
  "default_port env = (case env ''PGPORT'' of None \<Rightarrow> Some 5432 | Some t \<Rightarrow> py_int t)"

definition scanned_port_texts :: "environ \<Rightarrow> string list \<Rightarrow> string list" where
  "scanned_port_texts env args =
     (case env ''PGPORT'' of None \<Rightarrow> [] | Some t \<Rightarrow> [t]) @ port_texts (occurrences args)"

subsection \<open>Token classes\<close>

text \<open>
  The parser, the rewriter and the occurrence scan test a token against the same six
  conditions in the same order; \<open>classify\<close> names the first one that holds.
\<close>

datatype tclass = HostFlag | HostEq | PortFlag | PortEq | DbFlag | DbEq | Other

definition classify :: "string \<Rightarrow> tclass" where
  "classify arg =
     (if arg = ''-h'' \<or> arg = ''--host'' then HostFlag
      else if startswith arg ''--host='' then HostEq
      else if arg = ''-p'' \<or> arg = ''--port'' then PortFlag
      else if startswith arg ''--port='' then PortEq
      else if arg = ''-d'' \<or> arg = ''--dbname'' then DbFlag
      else if startswith arg ''--dbname='' then DbEq
      else Other)"

section \<open>The command (pgcli/dumpall.py, \<open>cli\<close>) and \<open>start_tunnel\<close>\<close>

text \<open>
  What the world outside the program does is an input of the model: whether the
  \<open>sshtunnel\<close> package was importable, what creating and starting the forwarder does,
  which path \<open>find_pg_dumpall\<close> returns and how \<open>subprocess.run\<close> ends. A run of the
  program ends by returning, by \<open>sys.exit(code)\<close>, or with an exception nobody catches.
  The user's interruption arrives as a \<open>KeyboardInterrupt\<close> in the library call that is
  running: creating the forwarder (\<open>ConstructorInterrupted\<close>), its blocking \<open>start()\<close>
  (\<open>StartInterrupted\<close>, with the value of \<open>is_active\<close> the forwarder is left with), or
  \<open>subprocess.run\<close> (\<open>Interrupted\<close>).
\<close>

datatype start_outcome =
    UrlPortInvalid
  | ConstructorRaises
  | ConstructorInterrupted
  | StartRaises
  | StartInterrupted bool
  | StartReturns bool int

datatype run_outcome = Returned int | FileNotFound | Interrupted

record world =
  ssh_tunnel_support :: bool
  forwarder_start :: start_outcome
  pg_dumpall_path :: string
  run_result :: run_outcome

datatype 'a outcome = Normal 'a | SysExit int | Raised error

record config =
  ssh_tunnels :: "(string \<times> string) list option"
  dsn_ssh_tunnels :: "(string \<times> string) list option"

text \<open>
  \<open>start_tunnel\<close>. \<open>UrlPortInvalid\<close> is the \<open>ValueError\<close> that parsing the tunnel URL
  or reading its port raises, outside the \<open>try\<close> block. Inside it, the constructor or
  \<open>start()\<close> raising an \<open>Exception\<close>, and \<open>start()\<close> returning with \<open>is_active\<close>
  false, all end in \<open>sys.exit(1)\<close>; the forwarder is stored in \<open>self.tunnel\<close> before it
  is started. A forwarder whose \<open>start()\<close> raised an \<open>Exception\<close> is taken to be
  inactive. A \<open>KeyboardInterrupt\<close> raised in the constructor or in \<open>start()\<close> is not
  caught by \<open>except Exception\<close>: it leaves \<open>start_tunnel\<close> before the exit hook is
  registered.
\<close>

definition start_tunnel ::
  "matcher \<Rightarrow> manager \<Rightarrow> string \<Rightarrow> int \<Rightarrow> string option \<Rightarrow> world \<Rightarrow> event list
     \<Rightarrow> (string \<times> int) outcome \<times> manager \<times> event list"
where
  "start_tunnel fullmatch m host port dsn_alias w tr =
     (case find_tunnel_url fullmatch m (Some host) dsn_alias of
        Inl e \<Rightarrow> (Raised e, m, tr)
      | Inr tunnel_url \<Rightarrow>
          if \<not> truthy tunnel_url then (Normal (host, port), m, tr)
          else if \<not> ssh_tunnel_support w then (SysExit 1, m, tr)
          else
            (case forwarder_start w of
               UrlPortInvalid \<Rightarrow> (Raised (ValueError (the tunnel_url)), m, tr)
             | ConstructorRaises \<Rightarrow> (SysExit 1, m, tr)
             | ConstructorInterrupted \<Rightarrow> (Raised KeyboardInterrupt, m, tr)
             | StartRaises \<Rightarrow>
                 (SysExit 1,
                  m\<lparr>tunnel := Some \<lparr>is_active = False, local_bind_port = 0\<rparr>\<rparr>,
                  tr @ [ForwarderStart])
             | StartInterrupted act \<Rightarrow>
                 (Raised KeyboardInterrupt,
                  m\<lparr>tunnel := Some \<lparr>is_active = act, local_bind_port = 0\<rparr>\<rparr>,
                  tr @ [ForwarderStart])
             | StartReturns act lp \<Rightarrow>
                 if \<not> act then
                   (SysExit 1,
                    m\<lparr>tunnel := Some \<lparr>is_active = False, local_bind_port = lp\<rparr>\<rparr>,
                    tr @ [ForwarderStart])
                 else
                   (Normal (''127.0.0.1'', lp),
                    m\<lparr>tunnel := Some \<lparr>is_active = True, local_bind_port = lp\<rparr>\<rparr>,
                    tr @ [ForwarderStart])))"

text \<open>
  \<open>get_tunnel_manager_from_config\<close>; \<open>py_lower\<close> is \<open>str.lower\<close> on the code points
  below 256.
\<close>

definition py_lower :: "string \<Rightarrow> string" where
  "py_lower s =
     map (\<lambda>c. let n = (of_char c :: nat)
               in if (65 \<le> n \<and> n \<le> 90) \<or> (192 \<le> n \<and> n \<le> 222 \<and> n \<noteq> 215)
                  then char_of (n + 32) else c) s"

definition get_tunnel_manager_from_config :: "config \<Rightarrow> string option \<Rightarrow> manager" where
  "get_tunnel_manager_from_config cfg url =
     (let ssh_tunnels_config = (case ssh_tunnels cfg of None \<Rightarrow> [] | Some d \<Rightarrow> d);
          agent = (case map_of ssh_tunnels_config ''allow_agent'' of
                     None \<Rightarrow> ''True'' | Some v \<Rightarrow> v)
      in \<lparr>ssh_tunnel_url = url,
          ssh_tunnel_config = ssh_tunnels_config,
          dsn_ssh_tunnel_config = (case dsn_ssh_tunnels cfg of None \<Rightarrow> [] | Some d \<Rightarrow> d),
          tunnel = None,
          allow_agent = (py_lower agent = ''true'')\<rparr>)"

text \<open>
  \<open>cli\<close>, from the parsed options on. The result is how the process ends, the manager if
  one was created, and the calls made to the forwarder and to \<open>subprocess.run\<close> in order.
  \<open>start_tunnel\<close> is called before the \<open>try\<close> statement: a \<open>sys.exit\<close> or an
  exception that leaves it ends \<open>cli\<close> without the \<open>finally\<close> clause being run.
  The \<open>finally\<close> clause runs \<open>stop_tunnel\<close> after the \<open>sys.exit\<close> of each branch was
  raised and before the process ends. The exit hook that \<open>start_tunnel\<close> registers
  calls \<open>stop_tunnel\<close> once more at that point, on a manager whose tunnel is already
  cleared.
\<close>

definition cli ::
  "matcher \<Rightarrow> environ \<Rightarrow> config \<Rightarrow> world \<Rightarrow> string option \<Rightarrow> string option \<Rightarrow> string list
     \<Rightarrow> unit outcome \<times> manager option \<times> event list"
where
  "cli fullmatch env cfg w ssh_tunnel dsn_alias pg_dumpall_args =
     (case parse_connection_args env pg_dumpall_args of
        Inl e \<Rightarrow> (Raised e, None, [])
      | Inr (host, port, remaining_args, has_host, has_port) \<Rightarrow>
          (case start_tunnel fullmatch (get_tunnel_manager_from_config cfg ssh_tunnel)
                  host port dsn_alias w [] of
             (Raised e, m, tr) \<Rightarrow> (Raised e, Some m, tr)
           | (SysExit c, m, tr) \<Rightarrow> (SysExit c, Some m, tr)
           | (Normal (tunnel_host, tunnel_port), m, tr) \<Rightarrow>
               (let final_args =
                      (if tunnel_host \<noteq> host \<or> tunnel_port \<noteq> port then
                         build_tunneled_args remaining_args tunnel_host tunnel_port
                           host port has_host has_port
                       else pg_dumpall_args);
                    cmd = pg_dumpall_path w # final_args;
                    code = (case run_result w of
                              Returned returncode \<Rightarrow> returncode
                            | FileNotFound \<Rightarrow> 1
                            | Interrupted \<Rightarrow> 130);
                    stopped = stop_tunnel (m, tr @ [RunCommand cmd])
                in (SysExit code, Some (fst stopped), snd stopped))))"

fun is_run :: "event \<Rightarrow> bool" where
  "is_run (RunCommand cmd) = True"
| "is_run ForwarderStart = False"
| "is_run ForwarderStop = False"

definition invoked :: "event list \<Rightarrow> bool" where
  "invoked tr = list_ex is_run tr"

text \<open>
  The kinds of tunnel set-up failure the specification lists (the capability is missing,
  creating or starting the forwarder raises an \<open>Exception\<close>, the bind is reported not
  active), and a successful set-up. An interrupted handshake is neither.
\<close>

definition setup_fails :: "world \<Rightarrow> bool" where
  "setup_fails w =
     (\<not> ssh_tunnel_support w
      \<or> (case forwarder_start w of
            UrlPortInvalid \<Rightarrow> False
          | ConstructorRaises \<Rightarrow> True
          | ConstructorInterrupted \<Rightarrow> False
          | StartRaises \<Rightarrow> True
          | StartInterrupted left \<Rightarrow> False
          | StartReturns act lp \<Rightarrow> \<not> act))"

definition setup_succeeds :: "world \<Rightarrow> bool" where
  "setup_succeeds w =
     (ssh_tunnel_support w
      \<and> (case forwarder_start w of
            UrlPortInvalid \<Rightarrow> False
          | ConstructorRaises \<Rightarrow> False
          | ConstructorInterrupted \<Rightarrow> False
          | StartRaises \<Rightarrow> False
          | StartInterrupted left \<Rightarrow> False
          | StartReturns act lp \<Rightarrow> act))"

definition scenario_E :: world where
  "scenario_E = \<lparr>ssh_tunnel_support = True, forwarder_start = StartReturns False 55123,
     pg_dumpall_path = ''/usr/bin/pg_dumpall'', run_result = Returned 0\<rparr>"

definition bastion_config :: config where
  "bastion_config =
     \<lparr>ssh_tunnels = Some [(''db'' @ [backslash] @ ''.prod'' @ [backslash] @ ''.com'',
                          ''ssh://bastion:22'')],
      dsn_ssh_tunnels = None\<rparr>"

definition tunnel_world :: world where
  "tunnel_world = \<lparr>ssh_tunnel_support = True, forwarder_start = StartReturns True 55123,
     pg_dumpall_path = ''/usr/bin/pg_dumpall'', run_result = Returned 3\<rparr>"

definition interrupted_command :: world where
  "interrupted_command = \<lparr>ssh_tunnel_support = True, forwarder_start = StartReturns True 55123,
     pg_dumpall_path = ''/usr/bin/pg_dumpall'', run_result = Interrupted\<rparr>"

definition interrupted_handshake :: world where
  "interrupted_handshake = \<lparr>ssh_tunnel_support = True, forwarder_start = StartInterrupted True,
     pg_dumpall_path = ''/usr/bin/pg_dumpall'', run_result = Returned 0\<rparr>"

subsection \<open>Notions used to state the properties of the rewriter\<close>

text \<open>
  \<open>whole pre\<close>: the tokens \<open>pre\<close> are whole iterations of the loops, so that a scan of
  \<open>pre @ rest\<close> starts an iteration at the first token of \<open>rest\<close>. \<open>normalised\<close>
  is what the rewriter does to a token sequence without host or port occurrences, apart
  from appending: a \<open>--dbname\<close> flag in the space-separated spelling is respelled
  \<open>-d\<close>, and a dbname value that contains the text \<open>host=\<close> has its fields joined
  again with single spaces. \<open>ws_free\<close>: no whitespace in a string.
\<close>

function whole :: "string list \<Rightarrow> bool" where
  "whole [] = True"
| "whole (arg # rest) =
     (case classify arg of
        HostFlag \<Rightarrow> rest \<noteq> [] \<and> whole (tl rest)
      | PortFlag \<Rightarrow> rest \<noteq> [] \<and> whole (tl rest)
      | DbFlag \<Rightarrow> rest \<noteq> [] \<and> whole (tl rest)
      | HostEq \<Rightarrow> whole rest
      | PortEq \<Rightarrow> whole rest
      | DbEq \<Rightarrow> whole rest
      | Other \<Rightarrow> whole rest)"
  by pat_completeness auto
termination
  by (relation "measure length") simp_all

definition rejoin :: "string \<Rightarrow> string" where
  "rejoin dbname = (if py_in ''host='' dbname then py_join '' '' (py_split dbname) else dbname)"

function normalised :: "string list \<Rightarrow> string list" where
  "normalised [] = []"
| "normalised (arg # rest) =
     (case classify arg of
        DbFlag \<Rightarrow>
          if rest \<noteq> [] then ''-d'' # rejoin (hd rest) # normalised (tl rest) else [arg]
      | DbEq \<Rightarrow>
          (if py_in ''host='' (after_eq arg) then ''--dbname='' @ rejoin (after_eq arg) else arg)
          # normalised rest
      | HostFlag \<Rightarrow> arg # normalised rest
      | HostEq \<Rightarrow> arg # normalised rest
      | PortFlag \<Rightarrow> arg # normalised rest
      | PortEq \<Rightarrow> arg # normalised rest
      | Other \<Rightarrow> arg # normalised rest)"
  by pat_completeness auto
termination
  by (relation "measure length") simp_all

definition ws_free :: "string \<Rightarrow> bool" where
  "ws_free s = list_all (\<lambda>c. \<not> isspace c) s"

definition other_field :: "string \<Rightarrow> bool" where
  "other_field part = (\<not> startswith part ''host='' \<and> \<not> startswith part ''port='')"

text \<open>
  \<open>subst_occ h t\<close> is what rewriting does to an occurrence: a host occurrence gets the
  value \<open>h\<close>, a port occurrence the text \<open>t\<close>. \<open>plain_host\<close> is a host text without
  whitespace that does not begin with a dash.
\<close>

fun subst_occ :: "string \<Rightarrow> string \<Rightarrow> occ \<Rightarrow> occ" where
  "subst_occ h t (HostOcc v) = HostOcc h"
| "subst_occ h t (PortOcc u) = PortOcc t"

definition plain_host :: "string \<Rightarrow> bool" where
  "plain_host h = (ws_free h \<and> \<not> startswith h ''-'')"

text \<open>\<open>valid_ports\<close>: \<open>int()\<close> accepts every port text of a list of occurrences.\<close>

definition valid_ports :: "occ list \<Rightarrow> bool" where
  "valid_ports os = list_all (\<lambda>t. py_int t \<noteq> None) (port_texts os)"

text \<open>
  \<open>fixed h t os\<close>: every host occurrence of \<open>os\<close> has the value \<open>h\<close> and every port
  occurrence the text \<open>t\<close>.
\<close>

definition fixed :: "string \<Rightarrow> string \<Rightarrow> occ list \<Rightarrow> bool" where
  "fixed h t os = (list_all (\<lambda>v. v = h) (host_values os) \<and> list_all (\<lambda>u. u = t) (port_texts os))"

section \<open>Properties of the tunnel manager\<close>

subsection \<open>The matcher accepts exactly the language of the pattern\<close>

lemma item_lang_Nil: "[] \<in> item_lang (a, q) \<longleftrightarrow> q \<noteq> Once \<and> q \<noteq> Plus"
  by (cases q) (auto simp: item_lang_def)

lemma item_lang_Cons:
  "c # w \<in> item_lang (a, q) \<longleftrightarrow>
     atom_ok a c \<and>
     (case q of Once \<Rightarrow> w = [] | Opt \<Rightarrow> w = []
      | Star \<Rightarrow> w \<in> item_lang (a, Star) | Plus \<Rightarrow> w \<in> item_lang (a, Star))"
  by (cases q) (auto simp: item_lang_def)

lemma lang_Cons_Nil: "[] \<in> lang ((a, q) # r) \<longleftrightarrow> q \<noteq> Once \<and> q \<noteq> Plus \<and> [] \<in> lang r"
  by (auto simp: item_lang_Nil)

lemma lang_step:
  "c # cs \<in> lang ((a, q) # r) \<longleftrightarrow>
     ([] \<in> item_lang (a, q) \<and> c # cs \<in> lang r)
     \<or> (atom_ok a c \<and>
         (case q of Once \<Rightarrow> cs \<in> lang r | Opt \<Rightarrow> cs \<in> lang r
          | Star \<Rightarrow> cs \<in> lang ((a, Star) # r) | Plus \<Rightarrow> cs \<in> lang ((a, Star) # r)))"
  (is "?L \<longleftrightarrow> ?R")
proof
  assume ?L
  then obtain u v where uv: "c # cs = u @ v" "u \<in> item_lang (a, q)" "v \<in> lang r" by auto
  show ?R
  proof (cases u)
    case Nil
    with uv show ?thesis by simp
  next
    case (Cons d w)
    with uv have "d = c" "cs = w @ v" "atom_ok a c" by (auto simp: item_lang_Cons)
    moreover from Cons uv
    have "case q of Once \<Rightarrow> w = [] | Opt \<Rightarrow> w = []
          | Star \<Rightarrow> w \<in> item_lang (a, Star) | Plus \<Rightarrow> w \<in> item_lang (a, Star)"
      by (auto simp: item_lang_Cons)
    ultimately show ?thesis using uv(3) by (cases q) auto
  qed
next
  assume r: ?R
  show ?L
  proof (cases "[] \<in> item_lang (a, q) \<and> c # cs \<in> lang r")
    case True
    then have "c # cs = [] @ (c # cs) \<and> [] \<in> item_lang (a, q) \<and> c # cs \<in> lang r" by simp
    then show ?thesis unfolding lang.simps by blast
  next
    case False
    with r have ok: "atom_ok a c"
      and rest: "(case q of Once \<Rightarrow> cs \<in> lang r | Opt \<Rightarrow> cs \<in> lang r
           | Star \<Rightarrow> cs \<in> lang ((a, Star) # r) | Plus \<Rightarrow> cs \<in> lang ((a, Star) # r))"
      by auto
    show ?thesis
    proof (cases "q = Once \<or> q = Opt")
      case True
      with rest have "cs \<in> lang r" by auto
      moreover from True ok have "[c] \<in> item_lang (a, q)" by (auto simp: item_lang_def)
      ultimately have "c # cs = [c] @ cs \<and> [c] \<in> item_lang (a, q) \<and> cs \<in> lang r" by simp
      then show ?thesis unfolding lang.simps by blast
    next
      case False
      then have q: "q = Star \<or> q = Plus" by (cases q) auto
      with rest obtain u v where uv: "cs = u @ v" "u \<in> item_lang (a, Star)" "v \<in> lang r"
        by auto
      from q ok uv(2) have "c # u \<in> item_lang (a, q)" by (auto simp: item_lang_def)
      with uv have "c # cs = (c # u) @ v \<and> c # u \<in> item_lang (a, q) \<and> v \<in> lang r" by simp
      then show ?thesis unfolding lang.simps by blast
    qed
  qed
qed

lemma match_items_lang: "match_items its s \<longleftrightarrow> s \<in> lang its"
proof (induction its s rule: match_items.induct)
  case (1 s)
  then show ?case by auto
next
  case (2 a r)
  then show ?case by (simp add: lang_Cons_Nil del: lang.simps)
next
  case (3 a r c cs)
  then show ?case by (simp add: lang_step item_lang_Nil del: lang.simps)
next
  case (4 a r)
  then show ?case by (simp add: lang_Cons_Nil del: lang.simps)
next
  case (5 a r c cs)
  then show ?case by (auto simp add: lang_step item_lang_Nil simp del: lang.simps)
next
  case (6 a r)
  then show ?case by (simp add: lang_Cons_Nil del: lang.simps)
next
  case (7 a r c cs)
  then show ?case by (auto simp add: lang_step item_lang_Nil simp del: lang.simps)
next
  case (8 a r)
  then show ?case by (simp add: lang_Cons_Nil del: lang.simps)
next
  case (9 a r c cs)
  then show ?case by (simp add: lang_step item_lang_Nil del: lang.simps)
qed

lemma on_fragment_lang:
  "on_fragment fullmatch \<Longrightarrow> re_compile pat = Some its \<Longrightarrow>
   fullmatch pat s = Some True \<longleftrightarrow> s \<in> lang its"
  by (simp add: on_fragment_def match_items_lang)

lemma on_fragment_fragment_matcher: "on_fragment fragment_matcher"
  by (simp add: on_fragment_def fragment_matcher_def)

subsection \<open>The loops return the first matching rule\<close>


lemma first_match_index:
  "first_match fullmatch rules (Some s) = Some u \<longleftrightarrow>
     s \<noteq> [] \<and>
     (\<exists>i < length rules. fullmatch (fst (rules ! i)) s = Some True \<and> u = snd (rules ! i)
        \<and> (\<forall>j < i. fullmatch (fst (rules ! j)) s \<noteq> Some True))"
proof -
  have "(\<exists>x. find (\<lambda>rule. fullmatch (fst rule) s = Some True) rules = Some x \<and> snd x = u) \<longleftrightarrow>
        (\<exists>i < length rules. fullmatch (fst (rules ! i)) s = Some True \<and> u = snd (rules ! i)
           \<and> (\<forall>j < i. fullmatch (fst (rules ! j)) s \<noteq> Some True))"
    unfolding find_Some_iff by blast
  then show ?thesis by (auto simp: first_match_def)
qed

lemma scan_rules_sound:
  "scan_rules fullmatch rules s = Inr (Some u) \<Longrightarrow>
   \<exists>pat. (pat, u) \<in> set rules \<and> fullmatch pat s = Some True"
proof (induction rules)
  case Nil
  then show ?case by simp
next
  case (Cons rule rules)
  obtain pat v where rule: "rule = (pat, v)" by (cases rule)
  show ?case
  proof (cases "fullmatch pat s")
    case None
    with Cons.prems rule show ?thesis by simp
  next
    case (Some b)
    show ?thesis
    proof (cases b)
      case True
      with Some Cons.prems rule have "v = u" by simp
      with Some True rule show ?thesis by auto
    next
      case False
      with Some Cons.prems rule have "scan_rules fullmatch rules s = Inr (Some u)" by simp
      with Cons.IH show ?thesis by auto
    qed
  qed
qed

lemma manager_from_config_tunnel:
  "tunnel (get_tunnel_manager_from_config cfg url) = None"
  by (simp add: get_tunnel_manager_from_config_def Let_def)

subsection \<open>Teardown\<close>

text \<open>
  C9. Stopping is idempotent and happens at most once per start: with no active tunnel
  (never started, already stopped, or started but not active) \<open>stop_tunnel\<close> leaves the
  manager and the trace unchanged; with an active tunnel it calls the forwarder's
  \<open>stop()\<close> exactly once and leaves the manager without an active tunnel; and stopping
  twice is the same as stopping once.
\<close>

theorem stop_tunnel_idempotent:
  "(\<not> active m \<longrightarrow> stop_tunnel (m, tr) = (m, tr))
   \<and> (active m \<longrightarrow>
        snd (stop_tunnel (m, tr)) = tr @ [ForwarderStop]
        \<and> stops (snd (stop_tunnel (m, tr))) = Suc (stops tr)
        \<and> tunnel (fst (stop_tunnel (m, tr))) = None
        \<and> \<not> active (fst (stop_tunnel (m, tr))))
   \<and> stop_tunnel (stop_tunnel (m, tr)) = stop_tunnel (m, tr)"
  by (auto simp: active_def stops_def split: option.splits)

theorem stop_tunnel_idempotent_witness:
  "active \<lparr>ssh_tunnel_url = None, ssh_tunnel_config = [], dsn_ssh_tunnel_config = [],
      tunnel = Some \<lparr>is_active = True, local_bind_port = 55123\<rparr>, allow_agent = True\<rparr>
   \<and> \<not> active \<lparr>ssh_tunnel_url = None, ssh_tunnel_config = [], dsn_ssh_tunnel_config = [],
      tunnel = None, allow_agent = True\<rparr>
   \<and> stops (snd (stop_tunnel (\<lparr>ssh_tunnel_url = None, ssh_tunnel_config = [],
      dsn_ssh_tunnel_config = [],
      tunnel = Some \<lparr>is_active = True, local_bind_port = 55123\<rparr>, allow_agent = True\<rparr>,
      [ForwarderStart]))) = 1
   \<and> stop_tunnel (\<lparr>ssh_tunnel_url = None, ssh_tunnel_config = [], dsn_ssh_tunnel_config = [],
      tunnel = None, allow_agent = True\<rparr>, []) =
     (\<lparr>ssh_tunnel_url = None, ssh_tunnel_config = [], dsn_ssh_tunnel_config = [],
      tunnel = None, allow_agent = True\<rparr>, [])"
  using stop_tunnel_idempotent
    [of "\<lparr>ssh_tunnel_url = None, ssh_tunnel_config = [], dsn_ssh_tunnel_config = [],
      tunnel = Some \<lparr>is_active = True, local_bind_port = 55123\<rparr>, allow_agent = True\<rparr>"
      "[ForwarderStart]"]
    stop_tunnel_idempotent
    [of "\<lparr>ssh_tunnel_url = None, ssh_tunnel_config = [], dsn_ssh_tunnel_config = [],
      tunnel = None, allow_agent = True\<rparr>" "[]"]
  by (simp add: active_def stops_def)

subsection \<open>Full-match semantics\<close>

text \<open>
  C4. A rule applies only if its pattern matches the entire candidate string. For every
  rule pattern, whatever its syntax: whenever the lookup returns a URL that does not come
  from the explicit override, \<open>re.fullmatch\<close>, applied to the pattern of a rule carrying
  that URL and to the whole alias, or the whole host, has returned a match. For the
  patterns of the fragment, whose meaning is written out, a match by \<open>re.fullmatch\<close>
  is exactly membership of the whole string in the language of the pattern. In particular
  the pattern \<^verbatim>\<open>db\.prod\.com\<close> matches \<^verbatim>\<open>db.prod.com\<close>, does not match \<^verbatim>\<open>xdb.prod.comx\<close>,
  which contains it as a proper substring, and the lookup for that host returns no URL.
\<close>

theorem rule_needs_full_match:
  "(\<not> truthy (ssh_tunnel_url m) \<and> find_tunnel_url fullmatch m host dsn_alias = Inr (Some u) \<longrightarrow>
      (\<exists>pat a. dsn_alias = Some a \<and> (pat, u) \<in> set (dsn_ssh_tunnel_config m)
          \<and> fullmatch pat a = Some True)
      \<or> (\<exists>pat h. host = Some h \<and> (pat, u) \<in> set (ssh_tunnel_config m)
          \<and> fullmatch pat h = Some True))
   \<and> (on_fragment fullmatch \<longrightarrow>
        (\<forall>pat its s. re_compile pat = Some its \<longrightarrow>
           (fullmatch pat s = Some True \<longleftrightarrow> s \<in> lang its))
        \<and> fullmatch (fst (hd (ssh_tunnel_config prod_rule))) ''db.prod.com'' = Some True
        \<and> fullmatch (fst (hd (ssh_tunnel_config prod_rule))) ''xdb.prod.comx'' = Some False
        \<and> find_tunnel_url fullmatch prod_rule (Some ''xdb.prod.comx'') None = Inr None
        \<and> find_tunnel_url fullmatch prod_rule (Some ''db.prod.com'') None =
            Inr (Some ''ssh://bastion:22''))"
proof -
  have gen: "(\<exists>pat a. dsn_alias = Some a \<and> (pat, u) \<in> set (dsn_ssh_tunnel_config m)
          \<and> fullmatch pat a = Some True)
      \<or> (\<exists>pat h. host = Some h \<and> (pat, u) \<in> set (ssh_tunnel_config m)
          \<and> fullmatch pat h = Some True)"
    if nt: "\<not> truthy (ssh_tunnel_url m)"
      and f: "find_tunnel_url fullmatch m host dsn_alias = Inr (Some u)"
  proof (cases "truthy dsn_alias \<and> dsn_ssh_tunnel_config m \<noteq> []
                \<and> scan_rules fullmatch (dsn_ssh_tunnel_config m) (the dsn_alias) = Inr (Some u)")
    case True
    then obtain a where a: "dsn_alias = Some a" by (cases dsn_alias) auto
    with True scan_rules_sound [of fullmatch "dsn_ssh_tunnel_config m" a u] show ?thesis by auto
  next
    case False
    with nt f
    have h: "truthy host \<and> scan_rules fullmatch (ssh_tunnel_config m) (the host) = Inr (Some u)"
      by (auto simp: find_tunnel_url_def split: if_splits sum.splits option.splits)
    then obtain h where "host = Some h" by (cases host) auto
    with h scan_rules_sound [of fullmatch "ssh_tunnel_config m" h u] show ?thesis by auto
  qed
  have frag: "(\<forall>pat its s. re_compile pat = Some its \<longrightarrow>
           (fullmatch pat s = Some True \<longleftrightarrow> s \<in> lang its))
        \<and> fullmatch (fst (hd (ssh_tunnel_config prod_rule))) ''db.prod.com'' = Some True
        \<and> fullmatch (fst (hd (ssh_tunnel_config prod_rule))) ''xdb.prod.comx'' = Some False
        \<and> find_tunnel_url fullmatch prod_rule (Some ''xdb.prod.comx'') None = Inr None
        \<and> find_tunnel_url fullmatch prod_rule (Some ''db.prod.com'') None =
            Inr (Some ''ssh://bastion:22'')"
    if o: "on_fragment fullmatch"
  proof -
    define its where "its = the (re_compile (fst (hd (ssh_tunnel_config prod_rule))))"
    have its: "re_compile (fst (hd (ssh_tunnel_config prod_rule))) = Some its"
      unfolding its_def by code_simp
    have m1: "match_items its ''db.prod.com''"
      unfolding its_def by code_simp
    have m2: "\<not> match_items its ''xdb.prod.comx''"
      unfolding its_def by code_simp
    from o its have fm: "fullmatch (fst (hd (ssh_tunnel_config prod_rule))) s =
        Some (match_items its s)" for s
      by (simp add: on_fragment_def)
    have e1: "fullmatch (fst (hd (ssh_tunnel_config prod_rule))) ''db.prod.com'' = Some True"
      using fm m1 by simp
    have e2: "fullmatch (fst (hd (ssh_tunnel_config prod_rule))) ''xdb.prod.comx'' = Some False"
      using fm m2 by simp
    have cfg: "ssh_tunnel_config prod_rule =
        [(fst (hd (ssh_tunnel_config prod_rule)), ''ssh://bastion:22'')]"
      "dsn_ssh_tunnel_config prod_rule = []" "ssh_tunnel_url prod_rule = None"
      by (simp_all add: prod_rule_def)
    have e3: "find_tunnel_url fullmatch prod_rule (Some ''xdb.prod.comx'') None = Inr None"
      unfolding find_tunnel_url_def cfg(2,3)
      by (subst (1 2) cfg(1)) (simp add: e2)
    have e4: "find_tunnel_url fullmatch prod_rule (Some ''db.prod.com'') None =
        Inr (Some ''ssh://bastion:22'')"
      unfolding find_tunnel_url_def cfg(2,3)
      by (subst (1 2) cfg(1)) (simp add: e1)
    from on_fragment_lang [OF o] e1 e2 e3 e4 show ?thesis by blast
  qed
  from gen frag show ?thesis by blast
qed

theorem rule_needs_full_match_witness:
  "\<not> truthy (ssh_tunnel_url prod_rule)
   \<and> find_tunnel_url fragment_matcher prod_rule (Some ''db.prod.com'') None =
       Inr (Some ''ssh://bastion:22'')
   \<and> (\<exists>pat. (pat, ''ssh://bastion:22'') \<in> set (ssh_tunnel_config prod_rule)
          \<and> fragment_matcher pat ''db.prod.com'' = Some True)
   \<and> re_compile ''a+b'' = Some [(Lit CHR ''a'', Plus), (Lit CHR ''b'', Once)]
   \<and> fragment_matcher ''a+b'' ''aab'' = Some True
   \<and> ''aab'' \<in> lang [(Lit CHR ''a'', Plus), (Lit CHR ''b'', Once)]
   \<and> fragment_matcher (fst (hd (ssh_tunnel_config prod_rule))) ''xdb.prod.comx'' = Some False
   \<and> find_tunnel_url fragment_matcher prod_rule (Some ''xdb.prod.comx'') None = Inr None"
proof -
  have t: "\<not> truthy (ssh_tunnel_url prod_rule)" by code_simp
  have f: "find_tunnel_url fragment_matcher prod_rule (Some ''db.prod.com'') None =
      Inr (Some ''ssh://bastion:22'')"
    by code_simp
  have o: "on_fragment fragment_matcher"
    by (simp add: on_fragment_def fragment_matcher_def)
  have c: "re_compile ''a+b'' = Some [(Lit CHR ''a'', Plus), (Lit CHR ''b'', Once)]"
    by code_simp
  have m: "fragment_matcher ''a+b'' ''aab'' = Some True" by code_simp
  note r = rule_needs_full_match
      [of prod_rule fragment_matcher "Some ''db.prod.com''" None "''ssh://bastion:22''"]
  from r t f have 1: "\<exists>pat. (pat, ''ssh://bastion:22'') \<in> set (ssh_tunnel_config prod_rule)
          \<and> fragment_matcher pat ''db.prod.com'' = Some True"
    by auto
  from r o c m have 2: "''aab'' \<in> lang [(Lit CHR ''a'', Plus), (Lit CHR ''b'', Once)]"
    by blast
  from r o
  have 3: "fragment_matcher (fst (hd (ssh_tunnel_config prod_rule))) ''xdb.prod.comx'' = Some False
      \<and> find_tunnel_url fragment_matcher prod_rule (Some ''xdb.prod.comx'') None = Inr None"
    by blast
  from t f 1 c m 2 3 show ?thesis by blast
qed

section \<open>Properties of the parser and the rewriter\<close>

subsection \<open>One iteration of each loop, by token class\<close>

lemma flags_not_prefixed:
  "\<not> startswith ''-h'' ''--host=''" "\<not> startswith ''-h'' ''--port=''" "\<not> startswith ''-h'' ''--dbname=''"
  "\<not> startswith ''--host'' ''--host=''" "\<not> startswith ''--host'' ''--port=''" "\<not> startswith ''--host'' ''--dbname=''"
  "\<not> startswith ''-p'' ''--host=''" "\<not> startswith ''-p'' ''--port=''" "\<not> startswith ''-p'' ''--dbname=''"
  "\<not> startswith ''--port'' ''--host=''" "\<not> startswith ''--port'' ''--port=''" "\<not> startswith ''--port'' ''--dbname=''"
  "\<not> startswith ''-d'' ''--host=''" "\<not> startswith ''-d'' ''--port=''" "\<not> startswith ''-d'' ''--dbname=''"
  "\<not> startswith ''--dbname'' ''--host=''" "\<not> startswith ''--dbname'' ''--port=''" "\<not> startswith ''--dbname'' ''--dbname=''"
  by (simp_all add: startswith_def)

lemma parse_loop_step:
  "parse_loop (arg # rest) h p rem hh hp =
     (case classify arg of
        HostFlag \<Rightarrow>
          if rest \<noteq> [] then parse_loop (tl rest) (hd rest) p (rem @ [arg, hd rest]) True hp
          else parse_loop rest h p (rem @ [arg]) hh hp
      | HostEq \<Rightarrow> parse_loop rest (after_eq arg) p (rem @ [arg]) True hp
      | PortFlag \<Rightarrow>
          if rest \<noteq> [] then
            (case py_int (hd rest) of
               None \<Rightarrow> Inl (ValueError (hd rest))
             | Some n \<Rightarrow> parse_loop (tl rest) h n (rem @ [arg, hd rest]) hh True)
          else parse_loop rest h p (rem @ [arg]) hh hp
      | PortEq \<Rightarrow>
          (case py_int (after_eq arg) of
             None \<Rightarrow> Inl (ValueError (after_eq arg))
           | Some n \<Rightarrow> parse_loop rest h n (rem @ [arg]) hh True)
      | DbFlag \<Rightarrow>
          if rest \<noteq> [] then
            (case parse_dbname (hd rest) h p hh hp of
               Inl e \<Rightarrow> Inl e
             | Inr (h', p', hh', hp') \<Rightarrow> parse_loop (tl rest) h' p' (rem @ [arg, hd rest]) hh' hp')
          else parse_loop rest h p (rem @ [arg]) hh hp
      | DbEq \<Rightarrow>
          (case parse_dbname (after_eq arg) h p hh hp of
             Inl e \<Rightarrow> Inl e
           | Inr (h', p', hh', hp') \<Rightarrow> parse_loop rest h' p' (rem @ [arg]) hh' hp')
      | Other \<Rightarrow> parse_loop rest h p (rem @ [arg]) hh hp)"
  by (simp add: classify_def flags_not_prefixed)


lemma occs_with_step:
  "occs_with g (arg # rest) =
     (case classify arg of
        HostFlag \<Rightarrow>
          if rest \<noteq> [] then HostOcc (hd rest) # occs_with g (tl rest) else occs_with g rest
      | HostEq \<Rightarrow> HostOcc (after_eq arg) # occs_with g rest
      | PortFlag \<Rightarrow>
          if rest \<noteq> [] then PortOcc (hd rest) # occs_with g (tl rest) else occs_with g rest
      | PortEq \<Rightarrow> PortOcc (after_eq arg) # occs_with g rest
      | DbFlag \<Rightarrow>
          if rest \<noteq> [] then
            (if g (hd rest) then part_occs (py_split (hd rest)) else []) @ occs_with g (tl rest)
          else occs_with g rest
      | DbEq \<Rightarrow>
          (if g (after_eq arg) then part_occs (py_split (after_eq arg)) else [])
          @ occs_with g rest
      | Other \<Rightarrow> occs_with g rest)"
  by (simp add: classify_def flags_not_prefixed)

lemma build_loop_step:
  "build_loop (arg # rest) th tp acc =
     (case classify arg of
        HostFlag \<Rightarrow> build_loop (tl rest) th tp (acc @ [''-h'', th])
      | HostEq \<Rightarrow> build_loop rest th tp (acc @ [''--host='' @ th])
      | PortFlag \<Rightarrow> build_loop (tl rest) th tp (acc @ [''-p'', py_str tp])
      | PortEq \<Rightarrow> build_loop rest th tp (acc @ [''--port='' @ py_str tp])
      | DbFlag \<Rightarrow>
          if rest \<noteq> [] then
            build_loop (tl rest) th tp
              (acc @ [''-d'', if py_in ''host='' (hd rest)
                              then py_join '' '' (new_parts (py_split (hd rest)) th tp)
                              else hd rest])
          else build_loop rest th tp (acc @ [arg])
      | DbEq \<Rightarrow>
          build_loop rest th tp
            (acc @ [if py_in ''host='' (after_eq arg)
                    then ''--dbname='' @ py_join '' '' (new_parts (py_split (after_eq arg)) th tp)
                    else arg])
      | Other \<Rightarrow> build_loop rest th tp (acc @ [arg]))"
  by (simp add: classify_def flags_not_prefixed)

declare parse_loop.simps(2) [simp del] occs_with.simps(2) [simp del] build_loop.simps(2) [simp del]

subsection \<open>The parser replays the occurrences\<close>

lemma parse_parts_occs:
  "parse_parts parts h p hh hp = apply_occs (part_occs parts) h p hh hp"
  by (induction parts arbitrary: h p hh hp) (auto split: option.splits)

lemma apply_occs_append:
  "apply_occs (a @ b) h p hh hp =
     (case apply_occs a h p hh hp of
        Inl e \<Rightarrow> Inl e
      | Inr (h', p', hh', hp') \<Rightarrow> apply_occs b h' p' hh' hp')"
proof (induction a arbitrary: h p hh hp)
  case Nil
  then show ?case by simp
next
  case (Cons x a)
  then show ?case by (cases x) (auto split: option.splits)
qed

lemma parse_dbname_occs:
  "parse_dbname d h p hh hp =
     apply_occs (if py_in ''host='' d then part_occs (py_split d) else []) h p hh hp"
  by (simp add: parse_dbname_def parse_parts_occs)

lemma parse_loop_occs:
  "parse_loop args h p rem hh hp =
     (case apply_occs (occurrences args) h p hh hp of
        Inl e \<Rightarrow> Inl e
      | Inr (h', p', hh', hp') \<Rightarrow> Inr (h', p', rem @ args, hh', hp'))"
proof (induction "length args" arbitrary: args h p rem hh hp rule: less_induct)
  case less
  show ?case
  proof (cases args)
    case Nil
    then show ?thesis by (simp add: occurrences_def)
  next
    case (Cons arg rest)
    have ih: "parse_loop xs h' p' rem' hh' hp' =
       (case apply_occs (occurrences xs) h' p' hh' hp' of
          Inl e \<Rightarrow> Inl e
        | Inr (h'', p'', hh'', hp'') \<Rightarrow> Inr (h'', p'', rem' @ xs, hh'', hp''))"
      if "length xs \<le> length rest" for xs h' p' rem' hh' hp'
      using less [of xs h' p' rem' hh' hp'] that Cons by simp
    have "parse_loop (arg # rest) h p rem hh hp =
       (case apply_occs (occurrences (arg # rest)) h p hh hp of
          Inl e \<Rightarrow> Inl e
        | Inr (h', p', hh', hp') \<Rightarrow> Inr (h', p', rem @ arg # rest, hh', hp'))"
    proof (cases "classify arg")
      case HostFlag
      then show ?thesis
        by (cases rest)
          (simp_all add: parse_loop_step occs_with_step occurrences_def ih
            split: sum.splits)
    next
      case HostEq
      then show ?thesis
        by (simp add: parse_loop_step occs_with_step occurrences_def ih
            split: sum.splits)
    next
      case PortFlag
      then show ?thesis
        by (cases rest)
          (simp_all add: parse_loop_step occs_with_step occurrences_def ih
            split: option.splits sum.splits)
    next
      case PortEq
      then show ?thesis
        by (simp add: parse_loop_step occs_with_step occurrences_def ih
            split: option.splits sum.splits)
    next
      case DbFlag
      then show ?thesis
        by (cases rest)
          (simp_all add: parse_loop_step occs_with_step occurrences_def ih
            parse_dbname_occs apply_occs_append split: sum.splits)
    next
      case DbEq
      then show ?thesis
        by (simp add: parse_loop_step occs_with_step occurrences_def ih
            parse_dbname_occs apply_occs_append split: sum.splits)
    next
      case Other
      then show ?thesis
        by (simp add: parse_loop_step occs_with_step occurrences_def ih
            split: sum.splits)
    qed
    then show ?thesis by (simp only: Cons)
  qed
qed

text \<open>The definitions that evaluating the parser and the rewriter on concrete tokens unfolds.\<close>

lemmas eval_defs = build_tunneled_args_def startswith_def py_split_def isspace_def after_eq_def
  py_str_def digit_char_def parse_connection_args_def parse_dbname_def py_int_def py_nat_def
  strip_def int_space_def is_digit_def digit_val_def parse_loop.simps build_loop.simps
  occs_with.simps spec_occurrences_def occurrences_def last_opt_def default_host_def
  default_port_def scanned_port_texts_def str_nat.simps

lemma last_opt_Cons: "last_opt (x # xs) = (if xs = [] then Some x else last_opt xs)"
  by (simp add: last_opt_def)

lemma apply_occs_result:
  "apply_occs os h p hh hp = Inr (h', p', hh', hp') \<Longrightarrow>
     h' = (case last_opt (host_values os) of None \<Rightarrow> h | Some v \<Rightarrow> v)
     \<and> (hh' \<longleftrightarrow> hh \<or> host_values os \<noteq> [])
     \<and> (case last_opt (port_texts os) of None \<Rightarrow> p' = p | Some t \<Rightarrow> py_int t = Some p')
     \<and> (hp' \<longleftrightarrow> hp \<or> port_texts os \<noteq> [])"
proof (induction os arbitrary: h p hh hp)
  case Nil
  then show ?case by (simp add: last_opt_def)
next
  case (Cons x os)
  show ?case
  proof (cases x)
    case (HostOcc v)
    with Cons.prems have "apply_occs os v p True hp = Inr (h', p', hh', hp')" by simp
    from Cons.IH [OF this] show ?thesis
      by (auto simp: HostOcc last_opt_Cons last_opt_def split: option.splits if_splits)
  next
    case (PortOcc t)
    with Cons.prems obtain n where n: "py_int t = Some n"
      and r: "apply_occs os h n hh True = Inr (h', p', hh', hp')"
      by (auto split: option.splits)
    from Cons.IH [OF r] n show ?thesis
      by (auto simp: PortOcc last_opt_Cons last_opt_def split: option.splits if_splits)
  qed
qed

lemma apply_occs_error:
  "apply_occs os h p hh hp = Inl e \<longleftrightarrow>
     (\<exists>t. find (\<lambda>t. py_int t = None) (port_texts os) = Some t \<and> e = ValueError t)"
proof (induction os arbitrary: h p hh hp)
  case Nil
  then show ?case by simp
next
  case (Cons x os)
  then show ?case by (cases x) (auto split: option.splits)
qed

lemma apply_occs_ok:
  "(\<exists>r. apply_occs os h p hh hp = Inr r) \<longleftrightarrow> list_all (\<lambda>t. py_int t \<noteq> None) (port_texts os)"
proof (induction os arbitrary: h p hh hp)
  case Nil
  then show ?case by simp
next
  case (Cons x os)
  then show ?case by (cases x) (auto split: option.splits)
qed

lemma parse_connection_args_occs:
  "parse_connection_args env args =
     (case default_port env of
        None \<Rightarrow> Inl (ValueError (the (env ''PGPORT'')))
      | Some port \<Rightarrow>
          (case apply_occs (occurrences args) (default_host env) port False False of
             Inl e \<Rightarrow> Inl e
           | Inr (h, p, hh, hp) \<Rightarrow> Inr (h, p, args, hh, hp)))"
  by (simp add: parse_connection_args_def default_port_def default_host_def parse_loop_occs
      split: option.splits sum.splits)

subsection \<open>Last occurrence wins\<close>

text \<open>
  C1, as the code has it. For every token sequence the parser accepts, the effective host
  and the effective port are the values of the last host occurrence and of the last port
  occurrence in scan order, and without an occurrence of a kind the environment default
  is used and the explicit flag stays false. The occurrences are the discrete flags in
  both spellings (a flag in the "flag value" spelling counts when a value follows it) and
  the \<open>host=\<close> and \<open>port=\<close> fields of the dbname values that contain the text
  \<open>host=\<close>. The token sequence is handed on unchanged.
\<close>

theorem parse_last_occurrence_wins:
  assumes "parse_connection_args env args = Inr (host, port, remaining, has_host, has_port)"
  shows "host = (case last_opt (host_values (occurrences args)) of
                   None \<Rightarrow> default_host env | Some v \<Rightarrow> v)
     \<and> (has_host \<longleftrightarrow> host_values (occurrences args) \<noteq> [])
     \<and> (case last_opt (port_texts (occurrences args)) of
           None \<Rightarrow> default_port env = Some port
         | Some t \<Rightarrow> py_int t = Some port)
     \<and> (has_port \<longleftrightarrow> port_texts (occurrences args) \<noteq> [])
     \<and> remaining = args"
proof -
  from assms obtain dp where dp: "default_port env = Some dp"
    and r: "apply_occs (occurrences args) (default_host env) dp False False =
            Inr (host, port, has_host, has_port)"
    and rem: "remaining = args"
    by (auto simp: parse_connection_args_occs split: option.splits sum.splits)
  from apply_occs_result [OF r] dp rem show ?thesis
    by (auto split: option.splits)
qed

theorem parse_last_occurrence_wins_witness:
  "parse_connection_args Map.empty
       [''-h'', ''first.host'', ''-d'', ''host=db.example.com port=5433 dbname=mydb'',
        ''--port=6000''] =
     Inr (''db.example.com'', 6000,
          [''-h'', ''first.host'', ''-d'', ''host=db.example.com port=5433 dbname=mydb'',
           ''--port=6000''], True, True)
   \<and> last_opt (host_values (occurrences
       [''-h'', ''first.host'', ''-d'', ''host=db.example.com port=5433 dbname=mydb'',
        ''--port=6000''])) = Some ''db.example.com''
   \<and> last_opt (port_texts (occurrences
       [''-h'', ''first.host'', ''-d'', ''host=db.example.com port=5433 dbname=mydb'',
        ''--port=6000''])) = Some ''6000''"
proof -
  have p: "parse_connection_args Map.empty
       [''-h'', ''first.host'', ''-d'', ''host=db.example.com port=5433 dbname=mydb'',
        ''--port=6000''] =
     Inr (''db.example.com'', 6000,
          [''-h'', ''first.host'', ''-d'', ''host=db.example.com port=5433 dbname=mydb'',
           ''--port=6000''], True, True)"
    by (simp add: eval_defs)
  have o: "occurrences
       [''-h'', ''first.host'', ''-d'', ''host=db.example.com port=5433 dbname=mydb'',
        ''--port=6000''] =
       [HostOcc ''first.host'', HostOcc ''db.example.com'', PortOcc ''5433'', PortOcc ''6000'']"
    by (simp add: eval_defs)
  from parse_last_occurrence_wins [OF p] p show ?thesis
    by (simp add: o last_opt_def)
qed

text \<open>
  A dbname value with a \<open>port=\<close> field and no \<open>host=\<close> is not looked into: the
  specification's last port occurrence is \<open>5433\<close>, the parser keeps the default and the
  explicit flag stays false.
\<close>

theorem port_field_without_host_counterexample:
  "parse_connection_args Map.empty [''-d'', ''port=5433 dbname=mydb''] =
     Inr (''localhost'', 5432, [''-d'', ''port=5433 dbname=mydb''], False, False)
   \<and> last_opt (port_texts (spec_occurrences [''-d'', ''port=5433 dbname=mydb''])) = Some ''5433''
   \<and> py_int ''5433'' = Some 5433"
  by (simp add: eval_defs)

subsection \<open>Port values that are not integers\<close>

text \<open>
  C2, as the code has it. Parsing succeeds exactly when \<open>int()\<close> accepts every port text
  it is given: the value of \<open>PGPORT\<close> if set, the value of every port flag, and every
  \<open>port=\<close> field of a dbname value containing \<open>host=\<close>. Otherwise it fails with the
  \<open>ValueError\<close> of the first rejected text, and the command ends with that exception
  before a manager exists or any call to the forwarder or to the wrapped command is made.
\<close>

theorem parse_fails_on_bad_port:
  "((\<exists>r. parse_connection_args env args = Inr r) \<longleftrightarrow>
      list_all (\<lambda>t. py_int t \<noteq> None) (scanned_port_texts env args))
   \<and> (parse_connection_args env args = Inl e \<longleftrightarrow>
      (\<exists>t. find (\<lambda>t. py_int t = None) (scanned_port_texts env args) = Some t
           \<and> e = ValueError t))
   \<and> (parse_connection_args env args = Inl e \<longrightarrow>
      cli fullmatch env cfg w ssh_tunnel dsn_alias args = (Raised e, None, []))"
proof -
  have ok: "(\<exists>r. parse_connection_args env args = Inr r) \<longleftrightarrow>
      list_all (\<lambda>t. py_int t \<noteq> None) (scanned_port_texts env args)"
  proof (cases "env ''PGPORT''")
    case None
    then show ?thesis
      using apply_occs_ok [of "occurrences args" "default_host env" 5432 False False]
      by (auto simp: parse_connection_args_occs default_port_def scanned_port_texts_def
          split: sum.splits)
  next
    case (Some t)
    show ?thesis
    proof (cases "py_int t")
      case None
      with Some show ?thesis
        by (simp add: parse_connection_args_occs default_port_def scanned_port_texts_def)
    next
      case (Some n)
      with \<open>env ''PGPORT'' = Some t\<close> show ?thesis
        using apply_occs_ok [of "occurrences args" "default_host env" n False False]
        by (auto simp: parse_connection_args_occs default_port_def scanned_port_texts_def
            split: sum.splits)
    qed
  qed
  have err: "parse_connection_args env args = Inl e \<longleftrightarrow>
      (\<exists>t. find (\<lambda>t. py_int t = None) (scanned_port_texts env args) = Some t
           \<and> e = ValueError t)"
  proof (cases "env ''PGPORT''")
    case None
    then show ?thesis
      using apply_occs_error [of "occurrences args" "default_host env" 5432 False False e]
      by (auto simp: parse_connection_args_occs default_port_def scanned_port_texts_def
          split: sum.splits)
  next
    case (Some t)
    show ?thesis
    proof (cases "py_int t")
      case None
      with Some show ?thesis
        by (auto simp add: parse_connection_args_occs default_port_def scanned_port_texts_def)
    next
      case (Some n)
      with \<open>env ''PGPORT'' = Some t\<close> show ?thesis
        using apply_occs_error [of "occurrences args" "default_host env" n False False e]
        by (auto simp: parse_connection_args_occs default_port_def scanned_port_texts_def
            split: sum.splits)
    qed
  qed
  have c: "parse_connection_args env args = Inl e \<longrightarrow>
      cli fullmatch env cfg w ssh_tunnel dsn_alias args = (Raised e, None, [])"
    by (simp add: cli_def)
  from ok err c show ?thesis by blast
qed

theorem parse_fails_on_bad_port_witness:
  "parse_connection_args Map.empty [''-p'', ''abc''] = Inl (ValueError ''abc'')
   \<and> find (\<lambda>t. py_int t = None) (scanned_port_texts Map.empty [''-p'', ''abc'']) = Some ''abc''
   \<and> cli fragment_matcher Map.empty \<lparr>ssh_tunnels = None, dsn_ssh_tunnels = None\<rparr>
        \<lparr>ssh_tunnel_support = True, forwarder_start = StartReturns True 55123,
          pg_dumpall_path = ''/usr/bin/pg_dumpall'', run_result = Returned 0\<rparr>
        None None [''-p'', ''abc''] = (Raised (ValueError ''abc''), None, [])"
proof -
  have p: "parse_connection_args Map.empty [''-p'', ''abc''] = Inl (ValueError ''abc'')"
    by (simp add: eval_defs)
  from parse_fails_on_bad_port [of Map.empty "[''-p'', ''abc'']" "ValueError ''abc''"
      fragment_matcher "\<lparr>ssh_tunnels = None, dsn_ssh_tunnels = None\<rparr>"
      "\<lparr>ssh_tunnel_support = True, forwarder_start = StartReturns True 55123,
          pg_dumpall_path = ''/usr/bin/pg_dumpall'', run_result = Returned 0\<rparr>" None None] p
  show ?thesis by auto
qed

text \<open>
  A negative port is accepted, and a \<open>port=\<close> field that is not a number passes when
  the dbname value has no \<open>host=\<close>.
\<close>

theorem negative_port_accepted_counterexample:
  "parse_connection_args Map.empty [''-p'', ''-5''] =
     Inr (''localhost'', - 5, [''-p'', ''-5''], False, True)
   \<and> parse_connection_args Map.empty [''-d'', ''port=abc''] =
     Inr (''localhost'', 5432, [''-d'', ''port=abc''], False, False)"
  by (simp add: eval_defs)

subsection \<open>The rewriter works token group by token group\<close>

declare whole.simps(2) [simp del] normalised.simps(2) [simp del]

lemma build_loop_acc: "build_loop args th tp acc = acc @ build_loop args th tp []"
proof (induction "length args" arbitrary: args acc rule: less_induct)
  case less
  show ?case
  proof (cases args)
    case Nil
    then show ?thesis by simp
  next
    case (Cons arg rest)
    have ih: "build_loop xs th tp acc' = acc' @ build_loop xs th tp []"
      if "length xs \<le> length rest" for xs acc'
      using less [of xs acc'] that Cons by simp
    have t: "length (tl rest) \<le> length rest" by simp
    have "build_loop (arg # rest) th tp acc = acc @ build_loop (arg # rest) th tp []"
      by (cases "classify arg")
        (simp_all add: build_loop_step ih [OF t, of "_ @ _"] ih [OF le_refl, of "_ @ _"]
          ih [OF t, of "[_, _]"] ih [OF le_refl, of "[_]"])
    then show ?thesis by (simp only: Cons)
  qed
qed

lemma build_loop_whole:
  "whole pre \<Longrightarrow> build_loop (pre @ rest) th tp [] = build_loop pre th tp [] @ build_loop rest th tp []"
proof (induction "length pre" arbitrary: pre rule: less_induct)
  case less
  show ?case
  proof (cases pre)
    case Nil
    then show ?thesis by simp
  next
    case (Cons arg pre')
    have ih: "whole xs \<Longrightarrow> build_loop (xs @ rest) th tp [] =
        build_loop xs th tp [] @ build_loop rest th tp []"
      if "length xs \<le> length pre'" for xs
      using less(1) [of xs] that Cons by simp
    have t: "length (tl pre') \<le> length pre'" by simp
    from less.prems Cons have w: "whole (arg # pre')" by simp
    have "build_loop ((arg # pre') @ rest) th tp [] =
        build_loop (arg # pre') th tp [] @ build_loop rest th tp []"
    proof (cases "classify arg")
      case HostFlag
      with w obtain v pre'' where p: "pre' = v # pre''" and w': "whole pre''"
        by (cases pre') (auto simp: whole.simps)
      from HostFlag p ih [of pre''] w' show ?thesis
        by (simp add: build_loop_step build_loop_acc [of _ _ _ "[_, _]"])
    next
      case HostEq
      with w have "whole pre'" by (simp add: whole.simps)
      with HostEq ih [of pre'] show ?thesis
        by (simp add: build_loop_step build_loop_acc [of _ _ _ "[_]"])
    next
      case PortFlag
      with w obtain v pre'' where p: "pre' = v # pre''" and w': "whole pre''"
        by (cases pre') (auto simp: whole.simps)
      from PortFlag p ih [of pre''] w' show ?thesis
        by (simp add: build_loop_step build_loop_acc [of _ _ _ "[_, _]"])
    next
      case PortEq
      with w have "whole pre'" by (simp add: whole.simps)
      with PortEq ih [of pre'] show ?thesis
        by (simp add: build_loop_step build_loop_acc [of _ _ _ "[_]"])
    next
      case DbFlag
      with w obtain v pre'' where p: "pre' = v # pre''" and w': "whole pre''"
        by (cases pre') (auto simp: whole.simps)
      from DbFlag p ih [of pre''] w' show ?thesis
        by (simp add: build_loop_step build_loop_acc [of _ _ _ "[_, _]"])
    next
      case DbEq
      with w have "whole pre'" by (simp add: whole.simps)
      with DbEq ih [of pre'] show ?thesis
        by (simp add: build_loop_step build_loop_acc [of _ _ _ "[_]"])
    next
      case Other
      with w have "whole pre'" by (simp add: whole.simps)
      with Other ih [of pre'] show ?thesis
        by (simp add: build_loop_step build_loop_acc [of _ _ _ "[_]"])
    qed
    then show ?thesis by (simp only: Cons)
  qed
qed

lemma build_tunneled_args_whole:
  "whole pre \<Longrightarrow>
   build_tunneled_args (pre @ rest) th tp oh op hh hp =
     build_loop pre th tp [] @ build_tunneled_args rest th tp oh op hh hp"
  by (simp add: build_tunneled_args_def build_loop_whole Let_def)

lemma classify_literals:
  "classify ''-h'' = HostFlag" "classify ''--host'' = HostFlag"
  "classify ''-p'' = PortFlag" "classify ''--port'' = PortFlag"
  "classify ''-d'' = DbFlag" "classify ''--dbname'' = DbFlag"
  by (simp_all add: classify_def startswith_def)

lemma classify_joined:
  "classify (''--host='' @ x) = HostEq" "classify (''--port='' @ x) = PortEq"
  "classify (''--dbname='' @ x) = DbEq"
  by (simp_all add: classify_def startswith_def)

lemma after_eq_joined:
  "after_eq (''--host='' @ x) = x" "after_eq (''--port='' @ x) = x"
  "after_eq (''--dbname='' @ x) = x" "after_eq (''host='' @ x) = x" "after_eq (''port='' @ x) = x"
  by (simp_all add: after_eq_def)

lemmas classify_joined_Cons = classify_joined [simplified]

lemmas after_eq_joined_Cons = after_eq_joined [simplified]

lemma build_tunneled_args_Cons:
  "build_tunneled_args (arg # rest) th tp oh op hh hp =
     build_loop [arg] th tp [] @ build_tunneled_args rest th tp oh op hh hp"
  if "classify arg \<in> {HostEq, PortEq, DbEq, Other}"
  using that build_loop_acc [of rest th tp "[_]"]
  by (auto simp: build_tunneled_args_def Let_def build_loop_step)

lemma build_tunneled_args_Cons2:
  "build_tunneled_args (arg # v # rest) th tp oh op hh hp =
     build_loop [arg, v] th tp [] @ build_tunneled_args rest th tp oh op hh hp"
  if "classify arg \<in> {HostFlag, PortFlag, DbFlag}"
  using that build_loop_acc [of rest th tp "[_, _]"]
  by (auto simp: build_tunneled_args_def Let_def build_loop_step)

subsection \<open>Long flags are respelled\<close>

text \<open>
  C10. Wherever the rewriter meets \<open>--host\<close>, \<open>--port\<close> or \<open>--dbname\<close> followed by
  a value, at a position where it starts an iteration, its output has the short flag
  \<open>-h\<close>, \<open>-p\<close> or \<open>-d\<close> in that place, followed by the new value; the joined
  spellings \<open>--host=\<close>, \<open>--port=\<close> and \<open>--dbname=\<close> keep their flag text. The tokens
  before and after are rewritten on their own.
\<close>

theorem long_flags_respelled:
  assumes "whole pre"
  shows "build_tunneled_args (pre @ ''--host'' # v # post) th tp oh op hh hp =
       build_loop pre th tp [] @ ''-h'' # th # build_tunneled_args post th tp oh op hh hp
   \<and> build_tunneled_args (pre @ ''--port'' # v # post) th tp oh op hh hp =
       build_loop pre th tp [] @ ''-p'' # py_str tp # build_tunneled_args post th tp oh op hh hp
   \<and> build_tunneled_args (pre @ ''--dbname'' # v # post) th tp oh op hh hp =
       build_loop pre th tp [] @
       ''-d'' # (if py_in ''host='' v then py_join '' '' (new_parts (py_split v) th tp) else v)
       # build_tunneled_args post th tp oh op hh hp
   \<and> build_tunneled_args (pre @ (''--host='' @ x) # post) th tp oh op hh hp =
       build_loop pre th tp [] @ (''--host='' @ th) # build_tunneled_args post th tp oh op hh hp
   \<and> build_tunneled_args (pre @ (''--port='' @ x) # post) th tp oh op hh hp =
       build_loop pre th tp [] @
       (''--port='' @ py_str tp) # build_tunneled_args post th tp oh op hh hp
   \<and> build_tunneled_args (pre @ (''--dbname='' @ x) # post) th tp oh op hh hp =
       build_loop pre th tp [] @
       (''--dbname='' @ (if py_in ''host='' x then py_join '' '' (new_parts (py_split x) th tp)
                         else x))
       # build_tunneled_args post th tp oh op hh hp"
  using assms
  by (simp add: build_tunneled_args_whole build_tunneled_args_Cons build_tunneled_args_Cons2
      classify_literals classify_joined_Cons after_eq_joined_Cons build_loop_step)


theorem long_flags_respelled_witness:
  "whole [''-U'', ''user'']
   \<and> build_tunneled_args [''-U'', ''user'', ''--host'', ''db1'', ''--port=5433'']
        ''127.0.0.1'' 9999 ''db1'' 5433 True True =
      [''-U'', ''user'', ''-h'', ''127.0.0.1'', ''--port=9999'']
   \<and> ''--host'' \<notin> set (build_tunneled_args [''-U'', ''user'', ''--host'', ''db1'', ''--port=5433'']
        ''127.0.0.1'' 9999 ''db1'' 5433 True True)"
proof -
  have w: "whole [''-U'', ''user'']"
    by (simp add: whole.simps classify_def startswith_def)
  have pre: "build_loop [''-U'', ''user''] ''127.0.0.1'' 9999 [] = [''-U'', ''user'']"
    by (simp add: eval_defs)
  have post: "build_tunneled_args [''--port=5433''] ''127.0.0.1'' 9999 ''db1'' 5433 True True =
      [''--port=9999'']"
    by (simp add: eval_defs)
  from long_flags_respelled [OF w, of "''db1''" "[''--port=5433'']" "''127.0.0.1''" 9999
      "''db1''" 5433 True True]
  have "build_tunneled_args ([''-U'', ''user''] @ ''--host'' # ''db1'' # [''--port=5433''])
        ''127.0.0.1'' 9999 ''db1'' 5433 True True =
      [''-U'', ''user'', ''-h'', ''127.0.0.1'', ''--port=9999'']"
    by (simp only: pre post) simp
  with w show ?thesis by simp
qed

subsection \<open>Splitting, joining and decimal numerals\<close>

lemma isspace_space: "isspace CHR '' ''"
  by (simp add: isspace_def)

lemma split_ws_prefix:
  "ws_free w \<Longrightarrow> split_ws cur (w @ s) = split_ws (cur @ w) s"
  by (induction w arbitrary: cur) (simp_all add: ws_free_def)

lemma split_ws_word: "ws_free w \<Longrightarrow> split_ws cur w = (if cur @ w = [] then [] else [cur @ w])"
  using split_ws_prefix [of w cur "[]"] by simp

lemma split_join:
  "list_all (\<lambda>p. p \<noteq> [] \<and> ws_free p) parts \<Longrightarrow> py_split (py_join '' '' parts) = parts"
proof (induction "'' ''" parts rule: py_join.induct)
  case 1
  then show ?case by (simp add: py_split_def)
next
  case (2 x)
  then show ?case by (simp add: py_split_def split_ws_word)
next
  case (3 x y ys)
  then have "split_ws [] (py_join '' '' (y # ys)) = y # ys" by (simp add: py_split_def)
  with 3 show ?case
    by (simp add: py_split_def split_ws_prefix isspace_space)
qed

lemma split_ws_parts:
  "ws_free cur \<Longrightarrow> list_all (\<lambda>p. p \<noteq> [] \<and> ws_free p) (split_ws cur s)"
  by (induction s arbitrary: cur) (auto simp: ws_free_def)

lemma py_split_parts: "list_all (\<lambda>p. p \<noteq> [] \<and> ws_free p) (py_split s)"
  unfolding py_split_def by (rule split_ws_parts) (simp add: ws_free_def)

lemma digit_cases: "d < 10 \<Longrightarrow> d \<in> {0, 1, 2, 3, 4, 5, 6, 7, 8, 9 :: nat}"
  by auto

lemma digit_char_props:
  assumes "d < 10"
  shows "is_digit (digit_char d)" "digit_val (digit_char d) = d" "\<not> isspace (digit_char d)"
    "\<not> int_space (digit_char d)" "digit_char d \<noteq> CHR ''-''" "digit_char d \<noteq> CHR ''+''"
    "digit_char d \<noteq> CHR ''_''"
  using digit_cases [OF assms]
  by (auto simp: digit_char_def is_digit_def digit_val_def isspace_def int_space_def)

declare str_nat.simps [simp del]

lemma py_digits_snoc:
  "list_all is_digit s \<Longrightarrow> d < 10 \<Longrightarrow>
   py_digits (s @ [digit_char d]) acc = map_option (\<lambda>m. 10 * m + d) (py_digits s acc)"
  by (induction s arbitrary: acc) (simp_all add: digit_char_props)

lemma str_nat_props:
  "str_nat n \<noteq> [] \<and> list_all is_digit (str_nat n) \<and> py_digits (str_nat n) 0 = Some n"
proof (induction n rule: str_nat.induct)
  case (1 n)
  show ?case
  proof (cases "n < 10")
    case True
    then show ?thesis
      by (subst (1 2 3) str_nat.simps) (simp add: digit_char_props)
  next
    case False
    with 1 have ih: "list_all is_digit (str_nat (n div 10))"
      "py_digits (str_nat (n div 10)) 0 = Some (n div 10)" by simp_all
    have m: "n mod 10 < 10" by simp
    from False ih m show ?thesis
      by (subst (1 2 3) str_nat.simps) (simp add: digit_char_props py_digits_snoc)
  qed
qed

lemma str_nat_hd: "is_digit (hd (str_nat n))"
  using str_nat_props [of n] by (cases "str_nat n") simp_all

lemma py_nat_str_nat: "py_nat (str_nat n) = Some n"
  using str_nat_props [of n] str_nat_hd [of n] by (simp add: py_nat_def)

lemma is_digit_not_space: "is_digit c \<Longrightarrow> \<not> isspace c \<and> \<not> int_space c \<and> c \<noteq> CHR ''-'' \<and> c \<noteq> CHR ''+''"
  by (auto simp: is_digit_def isspace_def int_space_def)

lemma strip_id: "list_all (\<lambda>c. \<not> int_space c) s \<Longrightarrow> strip s = s"
proof -
  assume a: "list_all (\<lambda>c. \<not> int_space c) s"
  then have 1: "dropWhile int_space s = s"
    by (cases s) simp_all
  from a have "list_all (\<lambda>c. \<not> int_space c) (rev s)" by (simp add: list_all_iff)
  then have "dropWhile int_space (rev s) = rev s"
    by (cases "rev s") simp_all
  with 1 show ?thesis by (simp add: strip_def)
qed

lemma str_nat_no_space:
  "list_all (\<lambda>c. \<not> int_space c) (str_nat n)" "ws_free (str_nat n)"
  using str_nat_props [of n] by (auto simp: list_all_iff ws_free_def is_digit_not_space)

lemma py_int_py_str: "py_int (py_str i) = Some i"
proof (cases "i < 0")
  case True
  have "list_all (\<lambda>c. \<not> int_space c) (CHR ''-'' # str_nat (nat (- i)))"
    using str_nat_no_space(1) [of "nat (- i)"] by (simp add: int_space_def)
  then have "strip (CHR ''-'' # str_nat (nat (- i))) = CHR ''-'' # str_nat (nat (- i))"
    by (rule strip_id)
  with True show ?thesis
    by (simp add: py_int_def py_str_def py_nat_str_nat)
next
  case False
  obtain c cs where s: "str_nat (nat i) = c # cs"
    using str_nat_props [of "nat i"] by (cases "str_nat (nat i)") auto
  with str_nat_hd [of "nat i"] have c: "c \<noteq> CHR ''-''" "c \<noteq> CHR ''+''"
    by (auto simp: is_digit_not_space)
  have "strip (str_nat (nat i)) = str_nat (nat i)"
    by (rule strip_id) (rule str_nat_no_space)
  with False s c py_nat_str_nat [of "nat i"] show ?thesis
    by (simp add: py_int_def py_str_def)
qed

lemma ws_free_py_str: "ws_free (py_str i)"
  using str_nat_no_space(2) by (simp add: py_str_def ws_free_def isspace_def)

subsection \<open>Rewriting a connection string\<close>

lemma new_parts_map:
  "new_parts parts th tp =
     map (\<lambda>part. if startswith part ''host='' then ''host='' @ th
                  else if startswith part ''port='' then ''port='' @ py_str tp else part) parts"
  by (induction parts) simp_all

lemma new_parts_ok:
  "ws_free th \<Longrightarrow> list_all (\<lambda>p. p \<noteq> [] \<and> ws_free p) parts \<Longrightarrow>
   list_all (\<lambda>p. p \<noteq> [] \<and> ws_free p) (new_parts parts th tp)"
  using ws_free_py_str [of tp]
  by (induction parts) (simp_all add: ws_free_def isspace_def)

lemma new_parts_other:
  "filter other_field (new_parts parts th tp) = filter other_field parts"
  by (induction parts) (simp_all add: other_field_def startswith_def)

text \<open>
  C5, as the code has it. A dbname value that is rewritten (it contains \<open>host=\<close>) is
  split at whitespace, and the fields are joined again with single spaces. With a
  replacement host free of whitespace, the fields of the result are the fields of the
  original, one for one and in order: a field starting with \<open>host=\<close> becomes \<open>host=\<close>
  and the new host, a field starting with \<open>port=\<close> becomes \<open>port=\<close> and the new port,
  and every other field is unchanged.
\<close>

theorem conninfo_fields_preserved:
  assumes "py_in ''host='' d" and "ws_free th"
  shows "build_tunneled_args [''-d'', d] th tp oh op True True =
       [''-d'', py_join '' '' (new_parts (py_split d) th tp)]
   \<and> build_tunneled_args [''--dbname='' @ d] th tp oh op True True =
       [''--dbname='' @ py_join '' '' (new_parts (py_split d) th tp)]
   \<and> py_split (py_join '' '' (new_parts (py_split d) th tp)) = new_parts (py_split d) th tp
   \<and> length (new_parts (py_split d) th tp) = length (py_split d)
   \<and> (\<forall>i < length (py_split d).
         new_parts (py_split d) th tp ! i =
           (if startswith (py_split d ! i) ''host='' then ''host='' @ th
            else if startswith (py_split d ! i) ''port='' then ''port='' @ py_str tp
            else py_split d ! i))
   \<and> filter other_field (new_parts (py_split d) th tp) = filter other_field (py_split d)"
proof -
  have 1: "build_tunneled_args [''-d'', d] th tp oh op True True =
       [''-d'', py_join '' '' (new_parts (py_split d) th tp)]"
    using assms(1) by (simp add: build_tunneled_args_def build_loop_step classify_literals)
  have 2: "build_tunneled_args [''--dbname='' @ d] th tp oh op True True =
       [''--dbname='' @ py_join '' '' (new_parts (py_split d) th tp)]"
    using assms(1)
    by (simp add: build_tunneled_args_def build_loop_step classify_joined_Cons
        after_eq_joined_Cons)
  have 3: "py_split (py_join '' '' (new_parts (py_split d) th tp)) = new_parts (py_split d) th tp"
    by (rule split_join) (rule new_parts_ok [OF assms(2) py_split_parts])
  have 4: "length (new_parts (py_split d) th tp) = length (py_split d)"
    by (simp add: new_parts_map)
  have 5: "\<forall>i < length (py_split d).
         new_parts (py_split d) th tp ! i =
           (if startswith (py_split d ! i) ''host='' then ''host='' @ th
            else if startswith (py_split d ! i) ''port='' then ''port='' @ py_str tp
            else py_split d ! i)"
    by (simp add: new_parts_map)
  from 1 2 3 4 5 new_parts_other show ?thesis by blast
qed

theorem conninfo_fields_preserved_witness:
  "py_in ''host='' ''host=db.example.com port=5433 dbname=mydb'' \<and> ws_free ''127.0.0.1''
   \<and> build_tunneled_args [''-d'', ''host=db.example.com port=5433 dbname=mydb'']
        ''127.0.0.1'' 55123 ''db.example.com'' 5433 True True =
      [''-d'', ''host=127.0.0.1 port=55123 dbname=mydb'']
   \<and> py_split ''host=127.0.0.1 port=55123 dbname=mydb'' =
      [''host=127.0.0.1'', ''port=55123'', ''dbname=mydb'']"
proof -
  have h: "py_in ''host='' ''host=db.example.com port=5433 dbname=mydb''"
    by (simp add: startswith_def)
  have w: "ws_free ''127.0.0.1''"
    by (simp add: ws_free_def isspace_def)
  have s: "py_split ''host=db.example.com port=5433 dbname=mydb'' =
      [''host=db.example.com'', ''port=5433'', ''dbname=mydb'']"
    by (simp add: eval_defs)
  have n: "new_parts [''host=db.example.com'', ''port=5433'', ''dbname=mydb''] ''127.0.0.1'' 55123
      = [''host=127.0.0.1'', ''port=55123'', ''dbname=mydb'']"
    by (simp add: eval_defs)
  note t = conninfo_fields_preserved [OF h w, of 55123 "''db.example.com''" 5433, unfolded s n]
  from t h w show ?thesis by simp
qed

text \<open>
  The separators of the original are not kept: two spaces between fields become one.
\<close>

theorem separators_normalised_counterexample:
  "build_tunneled_args [''-d'', ''host=db.example.com  dbname=mydb''] ''127.0.0.1'' 55123
       ''db.example.com'' 5432 True True =
     [''-d'', ''host=127.0.0.1 dbname=mydb'']
   \<and> build_tunneled_args [''-d'', ''host=db.example.com  dbname=mydb''] ''127.0.0.1'' 55123
       ''db.example.com'' 5432 True True \<noteq>
     [''-d'', ''host=127.0.0.1  dbname=mydb'']"
  by (simp add: eval_defs)

subsection \<open>Rewriting tokens without a host or a port\<close>

lemma new_parts_id: "part_occs parts = [] \<Longrightarrow> new_parts parts th tp = parts"
  by (induction parts) (simp_all split: if_splits)

lemma occs_with_empty:
  "occs_with (\<lambda>d. True) args = [] \<Longrightarrow> occs_with g args = []"
proof (induction "length args" arbitrary: args rule: less_induct)
  case less
  show ?case
  proof (cases args)
    case Nil
    then show ?thesis by simp
  next
    case (Cons arg rest)
    have ih: "occs_with (\<lambda>d. True) xs = [] \<Longrightarrow> occs_with g xs = []"
      if "length xs \<le> length rest" for xs
      using less(1) [of xs] that Cons by simp
    from less.prems Cons have e: "occs_with (\<lambda>d. True) (arg # rest) = []" by simp
    have "occs_with g (arg # rest) = []"
      using e ih [of rest] ih [of "tl rest"]
      by (cases "classify arg"; cases rest) (simp_all add: occs_with_step)
    then show ?thesis by (simp only: Cons)
  qed
qed

lemma build_loop_normalised:
  "spec_occurrences args = [] \<Longrightarrow>
   (args \<noteq> [] \<longrightarrow> classify (last args) \<notin> {HostFlag, PortFlag}) \<Longrightarrow>
   build_loop args th tp [] = normalised args"
proof (induction "length args" arbitrary: args rule: less_induct)
  case less
  show ?case
  proof (cases args)
    case Nil
    then show ?thesis by simp
  next
    case (Cons arg rest)
    have ih: "build_loop xs th tp [] = normalised xs"
      if "length xs \<le> length rest" "spec_occurrences xs = []"
        "xs \<noteq> [] \<longrightarrow> classify (last xs) \<notin> {HostFlag, PortFlag}" for xs
      using less(1) [of xs] that Cons by simp
    from less.prems Cons have e: "occs_with (\<lambda>d. True) (arg # rest) = []"
      by (simp add: spec_occurrences_def)
    from less.prems Cons
    have l: "classify (last (arg # rest)) \<notin> {HostFlag, PortFlag}" by simp
    have "build_loop (arg # rest) th tp [] = normalised (arg # rest)"
    proof (cases rest)
      case Nil
      with e l show ?thesis
        by (cases "classify arg")
          (simp_all add: build_loop_step normalised.simps occs_with_step rejoin_def new_parts_id)
    next
      case (Cons v rest')
      from l Cons have l1: "classify (last (v # rest')) \<notin> {HostFlag, PortFlag}" by simp
      then have l2: "rest' \<noteq> [] \<longrightarrow> classify (last rest') \<notin> {HostFlag, PortFlag}"
        by (auto split: if_splits)
      show ?thesis
      proof (cases "classify arg")
        case HostFlag
        with e Cons show ?thesis by (simp add: occs_with_step)
      next
        case HostEq
        with e show ?thesis by (simp add: occs_with_step)
      next
        case PortFlag
        with e Cons show ?thesis by (simp add: occs_with_step)
      next
        case PortEq
        with e show ?thesis by (simp add: occs_with_step)
      next
        case DbFlag
        with e Cons have p: "part_occs (py_split v) = []" and r: "spec_occurrences rest' = []"
          by (simp_all add: occs_with_step spec_occurrences_def)
        from ih [of rest'] r l2 Cons have "build_loop rest' th tp [] = normalised rest'" by simp
        with DbFlag Cons p show ?thesis
          by (simp add: build_loop_step normalised.simps rejoin_def new_parts_id
              build_loop_acc [of _ _ _ "[_, _]"])
      next
        case DbEq
        with e have p: "part_occs (py_split (after_eq arg)) = []"
          and r: "spec_occurrences rest = []"
          by (simp_all add: occs_with_step spec_occurrences_def)
        from ih [of rest] r l1 Cons have "build_loop rest th tp [] = normalised rest" by simp
        with DbEq p show ?thesis
          by (simp add: build_loop_step normalised.simps rejoin_def new_parts_id
              build_loop_acc [of _ _ _ "[_]"])
      next
        case Other
        with e have r: "spec_occurrences rest = []"
          by (simp_all add: occs_with_step spec_occurrences_def)
        from ih [of rest] r l1 Cons have "build_loop rest th tp [] = normalised rest" by simp
        with Other show ?thesis
          by (simp add: build_loop_step normalised.simps build_loop_acc [of _ _ _ "[_]"])
      qed
    qed
    then show ?thesis by (simp only: Cons)
  qed
qed

lemma length_normalised: "length (normalised args) = length args"
proof (induction "length args" arbitrary: args rule: less_induct)
  case less
  show ?case
  proof (cases args)
    case Nil
    then show ?thesis by simp
  next
    case (Cons arg rest)
    have ih: "length (normalised xs) = length xs" if "length xs \<le> length rest" for xs
      using less [of xs] that Cons by simp
    have "length (normalised (arg # rest)) = length (arg # rest)"
      by (cases "classify arg"; cases rest) (simp_all add: normalised.simps(2) [of arg] ih)
    then show ?thesis by (simp only: Cons)
  qed
qed

lemma classify_DbFlag: "classify arg = DbFlag \<Longrightarrow> arg = ''-d'' \<or> arg = ''--dbname''"
  by (simp add: classify_def split: if_splits)

lemma normalised_nth:
  "i < length args \<Longrightarrow>
   normalised args ! i = args ! i
   \<or> (args ! i = ''--dbname'' \<and> normalised args ! i = ''-d'')
   \<or> (py_in ''host='' (args ! i) \<and> normalised args ! i = rejoin (args ! i))
   \<or> (py_in ''host='' (after_eq (args ! i))
       \<and> normalised args ! i = ''--dbname='' @ rejoin (after_eq (args ! i)))"
proof (induction "length args" arbitrary: args i rule: less_induct)
  case less
  show ?case
  proof (cases args)
    case Nil
    with less.prems show ?thesis by simp
  next
    case (Cons arg rest)
    let ?P = "\<lambda>xs j. normalised xs ! j = xs ! j
       \<or> (xs ! j = ''--dbname'' \<and> normalised xs ! j = ''-d'')
       \<or> (py_in ''host='' (xs ! j) \<and> normalised xs ! j = rejoin (xs ! j))
       \<or> (py_in ''host='' (after_eq (xs ! j))
           \<and> normalised xs ! j = ''--dbname='' @ rejoin (after_eq (xs ! j)))"
    have ih: "?P xs j" if "length xs \<le> length rest" "j < length xs" for xs j
      using less(1) [of xs j] that Cons by simp
    from less.prems Cons have i: "i < Suc (length rest)" by simp
    have "?P (arg # rest) i"
    proof (cases "classify arg = DbFlag \<and> rest \<noteq> []")
      case True
      then obtain v rest' where r: "rest = v # rest'" by (cases rest) auto
      from True have n: "normalised (arg # rest) = ''-d'' # rejoin v # normalised rest'"
        by (simp add: normalised.simps(2) [of arg] r)
      consider "i = 0" | "i = 1" | j where "i = Suc (Suc j)" "j < length rest'"
        using i r by (cases i; cases "i - 1") auto
      then show ?thesis
      proof cases
        case 1
        with n True classify_DbFlag [of arg] show ?thesis by auto
      next
        case 2
        with n r show ?thesis by (auto simp: rejoin_def)
      next
        case 3
        with ih [of rest' j] r n show ?thesis by simp
      qed
    next
      case False
      have n: "normalised (arg # rest) =
          (if classify arg = DbEq \<and> py_in ''host='' (after_eq arg)
           then ''--dbname='' @ rejoin (after_eq arg) else arg) # normalised rest
        \<or> (rest = [] \<and> normalised (arg # rest) = [arg])"
        using False by (cases "classify arg") (simp_all add: normalised.simps(2) [of arg])
      show ?thesis
      proof (cases i)
        case 0
        with n show ?thesis by (auto split: if_splits)
      next
        case (Suc j)
        with i have j: "j < length rest" by simp
        then have "rest \<noteq> []" by auto
        with n Suc ih [of rest j] j show ?thesis by (auto split: if_splits)
      qed
    qed
    then show ?thesis by (simp only: Cons)
  qed
qed

text \<open>
  C6, as the code has it. Let a token sequence have no host and no port occurrence in the
  sense of the specification, and let its last token not be a bare host or port flag.
  Rewriting it (the parser reports both explicit flags false) appends exactly \<open>-h\<close>, the
  new host, \<open>-p\<close> and the new port at the end. The tokens before are the input tokens,
  one for one, except that a \<open>--dbname\<close> flag followed by a value is respelled
  \<open>-d\<close>, and a dbname value that contains the text \<open>host=\<close> has its fields joined
  again with single spaces. For the empty sequence and the endpoint (127.0.0.1, 9999) the
  result is \<open>-h 127.0.0.1 -p 9999\<close>.
\<close>

theorem rewrite_without_occurrences:
  assumes "spec_occurrences args = []"
    and "args \<noteq> [] \<longrightarrow> classify (last args) \<notin> {HostFlag, PortFlag}"
  shows "build_tunneled_args args th tp oh op False False =
       normalised args @ [''-h'', th, ''-p'', py_str tp]
   \<and> length (normalised args) = length args
   \<and> (\<forall>i < length args.
         normalised args ! i = args ! i
         \<or> (args ! i = ''--dbname'' \<and> normalised args ! i = ''-d'')
         \<or> (py_in ''host='' (args ! i) \<and> normalised args ! i = rejoin (args ! i))
         \<or> (py_in ''host='' (after_eq (args ! i))
             \<and> normalised args ! i = ''--dbname='' @ rejoin (after_eq (args ! i))))
   \<and> (parse_connection_args env args = Inr (h, p, r, hh, hp) \<longrightarrow> \<not> hh \<and> \<not> hp \<and> r = args)"
proof -
  from assms(1) have o: "occurrences args = []"
    by (simp add: spec_occurrences_def occurrences_def occs_with_empty)
  have 3: "parse_connection_args env args = Inr (h, p, r, hh, hp) \<longrightarrow> \<not> hh \<and> \<not> hp \<and> r = args"
    by (auto simp: parse_connection_args_occs o split: option.splits)
  have 1: "build_tunneled_args args th tp oh op False False =
       normalised args @ [''-h'', th, ''-p'', py_str tp]"
    by (simp add: build_tunneled_args_def Let_def build_loop_normalised [OF assms])
  have 2: "\<forall>i < length args.
         normalised args ! i = args ! i
         \<or> (args ! i = ''--dbname'' \<and> normalised args ! i = ''-d'')
         \<or> (py_in ''host='' (args ! i) \<and> normalised args ! i = rejoin (args ! i))
         \<or> (py_in ''host='' (after_eq (args ! i))
             \<and> normalised args ! i = ''--dbname='' @ rejoin (after_eq (args ! i)))"
    using normalised_nth [of _ args] by blast
  from 1 2 length_normalised [of args] 3 show ?thesis by blast
qed

theorem rewrite_without_occurrences_witness:
  "spec_occurrences [] = []
   \<and> build_tunneled_args [] ''127.0.0.1'' 9999 ''localhost'' 5432 False False =
       [''-h'', ''127.0.0.1'', ''-p'', ''9999'']
   \<and> spec_occurrences [''-U'', ''user'', ''-d'', ''mydb''] = []
   \<and> classify (last [''-U'', ''user'', ''-d'', ''mydb'']) \<notin> {HostFlag, PortFlag}
   \<and> build_tunneled_args [''-U'', ''user'', ''-d'', ''mydb''] ''127.0.0.1'' 9999
        ''localhost'' 5432 False False =
       [''-U'', ''user'', ''-d'', ''mydb'', ''-h'', ''127.0.0.1'', ''-p'', ''9999'']"
proof -
  have e: "spec_occurrences [] = []" by (simp add: spec_occurrences_def)
  have n: "normalised [] = []" by simp
  have s: "py_str 9999 = ''9999''" by (simp add: eval_defs)
  have e2: "spec_occurrences [''-U'', ''user'', ''-d'', ''mydb''] = []"
    by (simp add: eval_defs)
  have l2: "classify (last [''-U'', ''user'', ''-d'', ''mydb'']) \<notin> {HostFlag, PortFlag}"
    by (simp add: classify_def startswith_def)
  have n2: "normalised [''-U'', ''user'', ''-d'', ''mydb''] = [''-U'', ''user'', ''-d'', ''mydb'']"
    by (simp add: normalised.simps classify_def startswith_def rejoin_def)
  from rewrite_without_occurrences [OF e, of "''127.0.0.1''" 9999 "''localhost''" 5432]
    rewrite_without_occurrences [of "[''-U'', ''user'', ''-d'', ''mydb'']" "''127.0.0.1''" 9999
      "''localhost''" 5432] e e2 l2
  show ?thesis by (simp add: n n2 s)
qed

text \<open>
  The flag token \<open>--dbname\<close> does not pass through unchanged.
\<close>

theorem dbname_flag_respelled_counterexample:
  "spec_occurrences [''--dbname'', ''mydb''] = []
   \<and> build_tunneled_args [''--dbname'', ''mydb''] ''127.0.0.1'' 9999 ''localhost'' 5432
        False False =
       [''-d'', ''mydb'', ''-h'', ''127.0.0.1'', ''-p'', ''9999'']
   \<and> build_tunneled_args [''--dbname'', ''mydb''] ''127.0.0.1'' 9999 ''localhost'' 5432
        False False \<noteq>
       [''--dbname'', ''mydb''] @ [''-h'', ''127.0.0.1'', ''-p'', ''9999'']"
  by (simp add: eval_defs)

subsection \<open>Substrings, fields and joins\<close>

lemma startswith_iff: "startswith s p \<longleftrightarrow> (\<exists>post. s = p @ post)"
proof
  assume "startswith s p"
  then have "s = p @ drop (length p) s"
    by (metis append_take_drop_id startswith_def)
  then show "\<exists>post. s = p @ post" ..
next
  assume "\<exists>post. s = p @ post"
  then show "startswith s p" by (auto simp: startswith_def)
qed

lemma py_in_iff: "py_in sub s \<longleftrightarrow> (\<exists>pre post. s = pre @ sub @ post)"
proof (induction s)
  case Nil
  then show ?case by simp
next
  case (Cons c cs)
  show ?case
  proof
    assume "py_in sub (c # cs)"
    then consider "startswith (c # cs) sub" | "py_in sub cs" by auto
    then show "\<exists>pre post. c # cs = pre @ sub @ post"
    proof cases
      case 1
      then obtain post where "c # cs = [] @ sub @ post" by (auto simp: startswith_iff)
      then show ?thesis by blast
    next
      case 2
      with Cons obtain pre post where "cs = pre @ sub @ post" by auto
      then have "c # cs = (c # pre) @ sub @ post" by simp
      then show ?thesis by blast
    qed
  next
    assume "\<exists>pre post. c # cs = pre @ sub @ post"
    then obtain pre post where e: "c # cs = pre @ sub @ post" by auto
    show "py_in sub (c # cs)"
    proof (cases pre)
      case Nil
      with e have "startswith (c # cs) sub" by (auto simp: startswith_iff)
      then show ?thesis by simp
    next
      case (Cons d pre')
      with e have "cs = pre' @ sub @ post" by simp
      with Cons.IH have "py_in sub cs" by blast
      then show ?thesis by simp
    qed
  qed
qed

lemma py_in_set: "py_in sub s \<Longrightarrow> c \<in> set sub \<Longrightarrow> c \<in> set s"
  by (auto simp: py_in_iff)

lemma py_in_across_space:
  assumes "ws_free sub" and "isspace c" and "py_in sub (a @ c # b)"
  shows "py_in sub a \<or> py_in sub b"
proof -
  from assms(3) obtain pre post where e: "a @ c # b = pre @ sub @ post"
    by (auto simp: py_in_iff)
  from assms(1,2) have nc: "c \<notin> set sub" by (auto simp: ws_free_def list_all_iff)
  from e consider us where "a = pre @ us" "us @ c # b = sub @ post"
    | us where "a @ us = pre" "c # b = us @ sub @ post"
    by (auto simp: append_eq_append_conv2)
  then show ?thesis
  proof cases
    case 1
    from 1(2) consider vs where "us = sub @ vs" | vs where "us @ vs = sub" "c # b = vs @ post"
      by (auto simp: append_eq_append_conv2)
    then show ?thesis
    proof cases
      case 1
      with \<open>a = pre @ us\<close> have "a = pre @ sub @ vs" by simp
      then show ?thesis by (auto simp: py_in_iff)
    next
      case 2
      show ?thesis
      proof (cases vs)
        case Nil
        with 2 \<open>a = pre @ us\<close> have "a = pre @ sub @ []" by simp
        then show ?thesis unfolding py_in_iff by blast
      next
        case (Cons d vs')
        with 2 have "c \<in> set sub" by auto
        with nc show ?thesis by simp
      qed
    qed
  next
    case 2
    show ?thesis
    proof (cases us)
      case Nil
      with 2 have "c # b = sub @ post" by simp
      then have "sub = [] \<or> c \<in> set sub" by (cases sub) auto
      with nc have "sub = []" by simp
      then have "a = a @ sub @ []" by simp
      then show ?thesis unfolding py_in_iff by blast
    next
      case (Cons d us')
      with 2 have "b = us' @ sub @ post" by simp
      then show ?thesis unfolding py_in_iff by blast
    qed
  qed
qed

lemma py_in_split_ws:
  assumes "ws_free sub" and "sub \<noteq> []"
  shows "py_in sub (cur @ s) \<Longrightarrow> \<exists>part \<in> set (split_ws cur s). py_in sub part"
proof (induction s arbitrary: cur)
  case Nil
  then have "cur \<noteq> []" using assms(2) by (auto simp: py_in_iff)
  with Nil show ?case by simp
next
  case (Cons c cs)
  show ?case
  proof (cases "isspace c")
    case False
    from Cons.prems have "py_in sub ((cur @ [c]) @ cs)" by simp
    from Cons.IH [OF this] False show ?thesis by simp
  next
    case True
    from py_in_across_space [OF assms(1) True Cons.prems]
    consider "py_in sub cur" | "py_in sub ([] @ cs)" by auto
    then show ?thesis
    proof cases
      case 1
      then have "cur \<noteq> []" using assms(2) by (auto simp: py_in_iff)
      with 1 True show ?thesis by simp
    next
      case 2
      from Cons.IH [OF this] True show ?thesis by auto
    qed
  qed
qed

lemma py_in_py_split:
  "ws_free sub \<Longrightarrow> sub \<noteq> [] \<Longrightarrow> py_in sub s \<Longrightarrow> \<exists>part \<in> set (py_split s). py_in sub part"
  using py_in_split_ws [of sub "[]" s] by (simp add: py_split_def)

lemma py_join_contains:
  "part \<in> set parts \<Longrightarrow> \<exists>a b. py_join sep parts = a @ part @ b"
proof (induction sep parts rule: py_join.induct)
  case (1 sep)
  then show ?case by simp
next
  case (2 sep x)
  then have "py_join sep [x] = [] @ part @ []" by simp
  then show ?case by blast
next
  case (3 sep x y ys)
  show ?case
  proof (cases "part = x")
    case True
    then have "py_join sep (x # y # ys) = [] @ part @ (sep @ py_join sep (y # ys))" by simp
    then show ?thesis by blast
  next
    case False
    with 3 obtain a b where "py_join sep (y # ys) = a @ part @ b" by auto
    then have "py_join sep (x # y # ys) = (x @ sep @ a) @ part @ b" by simp
    then show ?thesis by blast
  qed
qed

lemma py_in_py_join:
  assumes "part \<in> set parts" and "py_in sub part"
  shows "py_in sub (py_join sep parts)"
proof -
  from py_join_contains [OF assms(1)] obtain a b where j: "py_join sep parts = a @ part @ b"
    by blast
  from assms(2) obtain pre post where "part = pre @ sub @ post" by (auto simp: py_in_iff)
  with j have "py_join sep parts = (a @ pre) @ sub @ (post @ b)" by simp
  then show ?thesis unfolding py_in_iff by blast
qed

subsection \<open>A rewritten connection string is parsed as it was rewritten\<close>

lemma py_digits_chars:
  "py_digits s acc = Some n \<Longrightarrow> c \<in> set s \<Longrightarrow> is_digit c \<or> c = CHR ''_''"
  by (induction s arbitrary: acc) (auto split: if_splits)

lemma py_nat_chars: "py_nat s = Some n \<Longrightarrow> c \<in> set s \<Longrightarrow> is_digit c \<or> c = CHR ''_''"
  by (auto simp: py_nat_def dest: py_digits_chars split: if_splits)

lemma set_dropWhile_cases: "c \<in> set s \<Longrightarrow> P c \<or> c \<in> set (dropWhile P s)"
  by (induction s) auto

lemma strip_chars: "c \<in> set t \<Longrightarrow> int_space c \<or> c \<in> set (strip t)"
proof -
  assume c: "c \<in> set t"
  show ?thesis
  proof (cases "int_space c")
    case True
    then show ?thesis by simp
  next
    case False
    with c set_dropWhile_cases [of c t int_space]
    have "c \<in> set (rev (dropWhile int_space t))" by auto
    with False set_dropWhile_cases [of c "rev (dropWhile int_space t)" int_space]
    show ?thesis by (auto simp: strip_def)
  qed
qed

lemma py_int_chars:
  assumes "py_int t = Some n" and "c \<in> set t"
  shows "is_digit c \<or> c = CHR ''_'' \<or> c = CHR ''-'' \<or> c = CHR ''+'' \<or> int_space c"
proof (cases "int_space c")
  case True
  then show ?thesis by simp
next
  case False
  with strip_chars [OF assms(2)] have m: "c \<in> set (strip t)" by simp
  then obtain c0 cs where s: "strip t = c0 # cs" by (cases "strip t") auto
  show ?thesis
  proof (cases "c = c0")
    case True
    with assms(1) s show ?thesis
      using py_nat_chars [of "c0 # cs" _ c0]
      by (auto simp: py_int_def split: if_splits)
  next
    case False
    with m s have "c \<in> set cs" by simp
    with assms(1) s show ?thesis
      using py_nat_chars [of cs _ c] py_nat_chars [of "c0 # cs" _ c]
      by (auto simp: py_int_def split: if_splits)
  qed
qed

lemma no_host_in_port_field:
  assumes "py_int t = Some n"
  shows "\<not> py_in ''host='' (''port='' @ t)"
proof
  assume "py_in ''host='' (''port='' @ t)"
  then have "CHR ''h'' \<in> set (''port='' @ t)" by (rule py_in_set) simp
  then have "CHR ''h'' \<in> set t" by simp
  from py_int_chars [OF assms this] show False
    by (simp add: is_digit_def int_space_def)
qed

lemma startswith_split: "startswith s p \<Longrightarrow> s = p @ drop (length p) s"
  by (metis append_take_drop_id startswith_def)

lemma after_eq_port: "startswith part ''port='' \<Longrightarrow> part = ''port='' @ after_eq part"
proof -
  assume "startswith part ''port=''"
  then obtain x where "part = ''port='' @ x" by (auto simp: startswith_iff)
  then show ?thesis by (simp add: after_eq_def)
qed

lemma part_occs_new_parts:
  "part_occs (new_parts parts h p) = map (subst_occ h (py_str p)) (part_occs parts)"
  by (induction parts) (simp_all add: startswith_def after_eq_def)

lemma part_occs_ports:
  "PortOcc t \<in> set (part_occs parts) \<Longrightarrow>
   \<exists>part \<in> set parts. startswith part ''port='' \<and> t = after_eq part"
  by (induction parts) (auto split: if_splits)

lemma port_part_occ:
  "part \<in> set parts \<Longrightarrow> \<not> startswith part ''host='' \<Longrightarrow> startswith part ''port='' \<Longrightarrow>
   PortOcc (after_eq part) \<in> set (part_occs parts)"
  by (induction parts) auto

lemma port_texts_set: "t \<in> set (port_texts os) \<longleftrightarrow> PortOcc t \<in> set os"
  by (induction os rule: port_texts.induct) auto

lemma rewritten_dbname:
  assumes h: "py_in ''host='' v" and w: "ws_free th"
    and val: "valid_ports (part_occs (py_split v))"
  shows "py_in ''host='' (py_join '' '' (new_parts (py_split v) th tp))"
    and "part_occs (py_split (py_join '' '' (new_parts (py_split v) th tp))) =
         map (subst_occ th (py_str tp)) (part_occs (py_split v))"
proof -
  have s: "py_split (py_join '' '' (new_parts (py_split v) th tp)) = new_parts (py_split v) th tp"
    by (rule split_join) (rule new_parts_ok [OF w py_split_parts])
  then show "part_occs (py_split (py_join '' '' (new_parts (py_split v) th tp))) =
         map (subst_occ th (py_str tp)) (part_occs (py_split v))"
    by (simp add: part_occs_new_parts)
  have wf: "ws_free ''host=''" by (simp add: ws_free_def isspace_def)
  from py_in_py_split [OF wf _ h] obtain part where
    part: "part \<in> set (py_split v)" "py_in ''host='' part" by auto
  let ?f = "\<lambda>part. if startswith part ''host='' then ''host='' @ th
                  else if startswith part ''port='' then ''port='' @ py_str tp else part"
  have "py_in ''host='' (?f part)"
  proof (cases "startswith part ''host=''")
    case True
    have "''host='' @ th = [] @ ''host='' @ th" by simp
    then have "py_in ''host='' (''host='' @ th)" unfolding py_in_iff by blast
    with True show ?thesis by simp
  next
    case False
    show ?thesis
    proof (cases "startswith part ''port=''")
      case True
      from port_part_occ [OF part(1) False True]
      have "after_eq part \<in> set (port_texts (part_occs (py_split v)))"
        by (simp add: port_texts_set)
      with val obtain n where "py_int (after_eq part) = Some n"
        by (auto simp: valid_ports_def list_all_iff)
      from no_host_in_port_field [OF this] after_eq_port [OF True]
      have "\<not> py_in ''host='' part" by metis
      with part(2) show ?thesis by blast
    next
      case f2: False
      with False part(2) show ?thesis by simp
    qed
  qed
  moreover have "?f part \<in> set (new_parts (py_split v) th tp)"
    using part(1) by (auto simp: new_parts_map)
  ultimately show "py_in ''host='' (py_join '' '' (new_parts (py_split v) th tp))"
    by (rule py_in_py_join [rotated])
qed

subsection \<open>Parsing what the rewriter wrote\<close>

lemma port_texts_append: "port_texts (a @ b) = port_texts a @ port_texts b"
  by (induction a rule: port_texts.induct) simp_all

lemma host_values_append: "host_values (a @ b) = host_values a @ host_values b"
  by (induction a rule: host_values.induct) simp_all

lemma valid_ports_simps:
  "valid_ports []" "valid_ports (HostOcc v # os) = valid_ports os"
  "valid_ports (PortOcc t # os) = (py_int t \<noteq> None \<and> valid_ports os)"
  "valid_ports (a @ b) = (valid_ports a \<and> valid_ports b)"
  by (simp_all add: valid_ports_def port_texts_append)

lemmas occurrences_step = occs_with_step [of "py_in ''host=''", folded occurrences_def]

lemma occurrences_Nil: "occurrences [] = []"
  by (simp add: occurrences_def)

lemma occurrences_whole:
  "whole pre \<Longrightarrow> occurrences (pre @ X) = occurrences pre @ occurrences X"
proof (induction "length pre" arbitrary: pre rule: less_induct)
  case less
  show ?case
  proof (cases pre)
    case Nil
    then show ?thesis by (simp add: occurrences_Nil)
  next
    case (Cons arg pre')
    have ih: "whole xs \<Longrightarrow> occurrences (xs @ X) = occurrences xs @ occurrences X"
      if "length xs \<le> length pre'" for xs
      using less(1) [of xs] that Cons by simp
    from less.prems Cons have w: "whole (arg # pre')" by simp
    have "occurrences ((arg # pre') @ X) = occurrences (arg # pre') @ occurrences X"
    proof (cases "classify arg \<in> {HostFlag, PortFlag, DbFlag}")
      case True
      with w obtain v pre'' where p: "pre' = v # pre''" and w': "whole pre''"
        by (cases pre') (auto simp: whole.simps)
      from True p ih [of pre''] w' show ?thesis
        by (auto simp: occurrences_step)
    next
      case False
      with w have "whole pre'" by (cases "classify arg") (simp_all add: whole.simps)
      with False ih [of pre'] show ?thesis
        by (cases "classify arg") (simp_all add: occurrences_step)
    qed
    then show ?thesis by (simp only: Cons)
  qed
qed

lemma occurrences_rewritten:
  assumes "ws_free h"
  shows "whole pre \<Longrightarrow> valid_ports (occurrences pre) \<Longrightarrow>
    occurrences (build_loop pre h p [] @ X) =
      map (subst_occ h (py_str p)) (occurrences pre) @ occurrences X"
proof (induction "length pre" arbitrary: pre rule: less_induct)
  case less
  show ?case
  proof (cases pre)
    case Nil
    then show ?thesis by (simp add: occurrences_Nil)
  next
    case (Cons arg pre')
    have ih: "occurrences (build_loop xs h p [] @ X) =
        map (subst_occ h (py_str p)) (occurrences xs) @ occurrences X"
      if "length xs \<le> length pre'" "whole xs" "valid_ports (occurrences xs)" for xs
      using less(1) [of xs] that Cons by simp
    from less.prems Cons have w: "whole (arg # pre')"
      and val: "valid_ports (occurrences (arg # pre'))" by simp_all
    have "occurrences (build_loop (arg # pre') h p [] @ X) =
        map (subst_occ h (py_str p)) (occurrences (arg # pre')) @ occurrences X"
    proof (cases "classify arg")
      case HostFlag
      with w obtain v pre'' where p: "pre' = v # pre''" and w': "whole pre''"
        by (cases pre') (auto simp: whole.simps)
      from val HostFlag p have "valid_ports (occurrences pre'')"
        by (simp add: occurrences_step valid_ports_simps)
      with HostFlag p ih [of pre''] w' show ?thesis
        by (simp add: build_loop_step build_loop_acc [of _ _ _ "[_, _]"] occurrences_step
            classify_literals)
    next
      case HostEq
      with w have w': "whole pre'" by (simp add: whole.simps)
      from val HostEq have "valid_ports (occurrences pre')"
        by (simp add: occurrences_step valid_ports_simps)
      with HostEq ih [of pre'] w' show ?thesis
        by (simp add: build_loop_step build_loop_acc [of _ _ _ "[_]"] occurrences_step
            classify_joined_Cons after_eq_joined_Cons)
    next
      case PortFlag
      with w obtain v pre'' where p: "pre' = v # pre''" and w': "whole pre''"
        by (cases pre') (auto simp: whole.simps)
      from val PortFlag p have "valid_ports (occurrences pre'')"
        by (simp add: occurrences_step valid_ports_simps)
      with PortFlag p ih [of pre''] w' show ?thesis
        by (simp add: build_loop_step build_loop_acc [of _ _ _ "[_, _]"] occurrences_step
            classify_literals)
    next
      case PortEq
      with w have w': "whole pre'" by (simp add: whole.simps)
      from val PortEq have "valid_ports (occurrences pre')"
        by (simp add: occurrences_step valid_ports_simps)
      with PortEq ih [of pre'] w' show ?thesis
        by (simp add: build_loop_step build_loop_acc [of _ _ _ "[_]"] occurrences_step
            classify_joined_Cons after_eq_joined_Cons)
    next
      case DbFlag
      with w obtain v pre'' where p: "pre' = v # pre''" and w': "whole pre''"
        by (cases pre') (auto simp: whole.simps)
      from val DbFlag p have v2: "valid_ports (occurrences pre'')"
        and v1: "py_in ''host='' v \<longrightarrow> valid_ports (part_occs (py_split v))"
        by (auto simp: occurrences_step valid_ports_simps split: if_splits)
      note r = ih [of pre'', OF _ w' v2]
      show ?thesis
      proof (cases "py_in ''host='' v")
        case True
        with v1 have v1': "valid_ports (part_occs (py_split v))" by simp
        from DbFlag p r True rewritten_dbname [OF True assms v1', of p] show ?thesis
          by (simp add: build_loop_step build_loop_acc [of _ _ _ "[_, _]"] occurrences_step
              classify_literals)
      next
        case False
        with DbFlag p r show ?thesis
          by (simp add: build_loop_step build_loop_acc [of _ _ _ "[_, _]"] occurrences_step
              classify_literals)
      qed
    next
      case DbEq
      with w have w': "whole pre'" by (simp add: whole.simps)
      from val DbEq have v2: "valid_ports (occurrences pre')"
        and v1: "py_in ''host='' (after_eq arg) \<longrightarrow>
                 valid_ports (part_occs (py_split (after_eq arg)))"
        by (auto simp: occurrences_step valid_ports_simps split: if_splits)
      note r = ih [of pre', OF _ w' v2]
      show ?thesis
      proof (cases "py_in ''host='' (after_eq arg)")
        case True
        with v1 have v1': "valid_ports (part_occs (py_split (after_eq arg)))" by simp
        from DbEq r True rewritten_dbname [OF True assms v1', of p] show ?thesis
          by (simp add: build_loop_step build_loop_acc [of _ _ _ "[_]"] occurrences_step
              classify_joined_Cons after_eq_joined_Cons)
      next
        case False
        with DbEq r show ?thesis
          by (simp add: build_loop_step build_loop_acc [of _ _ _ "[_]"] occurrences_step)
      qed
    next
      case Other
      with w have w': "whole pre'" by (simp add: whole.simps)
      from val Other have "valid_ports (occurrences pre')"
        by (simp add: occurrences_step valid_ports_simps)
      with Other ih [of pre'] w' show ?thesis
        by (simp add: build_loop_step build_loop_acc [of _ _ _ "[_]"] occurrences_step)
    qed
    then show ?thesis by (simp only: Cons)
  qed
qed


lemma whole_decomp:
  "\<exists>pre fin. args = pre @ fin \<and> whole pre
     \<and> (fin = [] \<or> (\<exists>a. fin = [a] \<and> classify a \<in> {HostFlag, PortFlag, DbFlag}))"
proof (induction "length args" arbitrary: args rule: less_induct)
  case less
  show ?case
  proof (cases args)
    case Nil
    then show ?thesis by simp
  next
    case (Cons arg rest)
    let ?Q = "\<lambda>xs pre fin. xs = pre @ fin \<and> whole pre
       \<and> (fin = [] \<or> (\<exists>a. fin = [a] \<and> classify a \<in> {HostFlag, PortFlag, DbFlag}))"
    have ih: "\<exists>pre fin. ?Q xs pre fin" if "length xs \<le> length rest" for xs
      using less [of xs] that Cons by simp
    have "\<exists>pre fin. ?Q (arg # rest) pre fin"
    proof (cases "classify arg \<in> {HostFlag, PortFlag, DbFlag}")
      case True
      show ?thesis
      proof (cases rest)
        case Nil
        with True have "?Q (arg # rest) [] [arg]" by simp
        then show ?thesis by blast
      next
        case (Cons v rest')
        from ih [of rest'] Cons obtain pre fin where q: "?Q rest' pre fin" by auto
        with True Cons have "?Q (arg # rest) (arg # v # pre) fin"
          by (auto simp: whole.simps)
        then show ?thesis by blast
      qed
    next
      case False
      from ih [of rest] obtain pre fin where q: "?Q rest pre fin" by auto
      with False have "?Q (arg # rest) (arg # pre) fin"
        by (cases "classify arg") (auto simp: whole.simps)
      then show ?thesis by blast
    qed
    then show ?thesis by (simp only: Cons)
  qed
qed

lemma classify_no_dash: "\<not> startswith h ''-'' \<Longrightarrow> classify h = Other"
  by (cases h) (auto simp: classify_def startswith_def)

lemma is_digit_not_flag_char:
  "is_digit c \<Longrightarrow> c \<noteq> CHR ''h'' \<and> c \<noteq> CHR ''p'' \<and> c \<noteq> CHR ''d'' \<and> c \<noteq> CHR ''-''"
  by (auto simp: is_digit_def)

lemma classify_digits:
  assumes "is_digit c"
  shows "classify (c # cs) = Other" "classify (CHR ''-'' # c # cs) = Other"
  using is_digit_not_flag_char [OF assms] by (auto simp: classify_def startswith_def)

lemma classify_py_str: "classify (py_str p) = Other"
proof -
  have "classify (str_nat n) = Other \<and> classify (CHR ''-'' # str_nat n) = Other" for n
  proof -
    obtain c cs where s: "str_nat n = c # cs" and c: "is_digit c"
      using str_nat_props [of n] str_nat_hd [of n] by (cases "str_nat n") auto
    from classify_digits [OF c, of cs] s show ?thesis by simp
  qed
  then show ?thesis by (simp add: py_str_def)
qed

lemma host_values_subst:
  "host_values (map (subst_occ h t) os) = map (\<lambda>v. h) (host_values os)"
  by (induction os rule: host_values.induct) simp_all

lemma port_texts_subst:
  "port_texts (map (subst_occ h t) os) = map (\<lambda>u. t) (port_texts os)"
  by (induction os rule: port_texts.induct) simp_all

lemma fixed_subst: "fixed h t (map (subst_occ h t) os)"
  by (simp add: fixed_def host_values_subst port_texts_subst list_all_iff)

lemma fixed_append: "fixed h t (a @ b) = (fixed h t a \<and> fixed h t b)"
  by (auto simp: fixed_def host_values_append port_texts_append)

lemma apply_occs_fixed:
  "fixed h t os \<Longrightarrow> py_int t = Some p \<Longrightarrow>
   apply_occs os h0 p0 a b =
     Inr (if host_values os = [] then h0 else h, if port_texts os = [] then p0 else p,
          a \<or> host_values os \<noteq> [], b \<or> port_texts os \<noteq> [])"
proof (induction os arbitrary: h0 p0 a b)
  case Nil
  then show ?case by simp
next
  case (Cons x os)
  then show ?case by (cases x) (auto simp: fixed_def)
qed

lemma tail_occurrences_fixed:
  assumes fin: "fin = [] \<or> (\<exists>a. fin = [a] \<and> classify a \<in> {HostFlag, PortFlag, DbFlag})"
    and h: "classify h = Other"
  shows "fixed h (py_str p)
     (occurrences (build_loop fin h p [] @
        (if \<not> hh then [''-h'', h] else []) @ (if \<not> hp then [''-p'', py_str p] else [])))"
proof -
  have nh: "\<not> py_in ''host='' ''-h''" "\<not> py_in ''host='' ''-p''"
    by (simp_all add: startswith_def)
  note facts = occurrences_step occurrences_Nil classify_literals classify_py_str h nh
    build_loop_step fixed_def startswith_def
  from fin consider "fin = []" | a where "fin = [a]" "classify a = HostFlag"
    | a where "fin = [a]" "classify a = PortFlag" | a where "fin = [a]" "classify a = DbFlag"
    by auto
  then show ?thesis
  proof cases
    case 1
    then show ?thesis by (cases hh; cases hp) (simp_all add: facts)
  next
    case 2
    then show ?thesis by (cases hh; cases hp) (simp_all add: facts)
  next
    case 3
    then show ?thesis by (cases hh; cases hp) (simp_all add: facts)
  next
    case 4
    then show ?thesis by (cases hh; cases hp) (simp_all add: facts)
  qed
qed


text \<open>
  C7, as the code has it. Let a token sequence parse without error, and let its effective
  host contain no whitespace and not begin with a dash. Rewriting it with its own
  effective host and port gives a token sequence that parses without error, to the same
  effective host and port.
\<close>

theorem rewrite_same_endpoint_reparses:
  assumes "parse_connection_args env args = Inr (host, port, remaining, has_host, has_port)"
    and "plain_host host"
  shows "\<exists>has_host' has_port'.
     parse_connection_args env
       (build_tunneled_args remaining host port host port has_host has_port) =
     Inr (host, port,
          build_tunneled_args remaining host port host port has_host has_port,
          has_host', has_port')"
proof -
  let ?sp = "py_str port"
  let ?T = "(if \<not> has_host then [''-h'', host] else [])
            @ (if \<not> has_port then [''-p'', ?sp] else [])"
  from assms(1) obtain dp where dp: "default_port env = Some dp"
    and r: "apply_occs (occurrences args) (default_host env) dp False False =
            Inr (host, port, has_host, has_port)"
    and rem: "remaining = args"
    by (auto simp: parse_connection_args_occs split: option.splits sum.splits)
  from r have val: "valid_ports (occurrences args)"
    using apply_occs_ok [of "occurrences args" "default_host env" dp False False]
    by (simp add: valid_ports_def)
  from whole_decomp [of args] obtain pre fin where a: "args = pre @ fin" and w: "whole pre"
    and fin: "fin = [] \<or> (\<exists>a. fin = [a] \<and> classify a \<in> {HostFlag, PortFlag, DbFlag})"
    by blast
  from fin have of: "occurrences fin = []"
    by (auto simp: occurrences_step occurrences_Nil)
  with a w have oa: "occurrences args = occurrences pre" by (simp add: occurrences_whole)
  from assms(2) have wsf: "ws_free host" and ch: "classify host = Other"
    by (simp_all add: plain_host_def classify_no_dash)
  let ?out = "build_tunneled_args args host port host port has_host has_port"
  let ?L2 = "occurrences (build_loop fin host port [] @ ?T)"
  have out: "?out = build_loop pre host port [] @ (build_loop fin host port [] @ ?T)"
    by (simp add: build_tunneled_args_def Let_def a build_loop_whole [OF w])
  have oo: "occurrences ?out = map (subst_occ host ?sp) (occurrences pre) @ ?L2"
    unfolding out using val by (simp add: occurrences_rewritten [OF wsf w] oa)
  have fx: "fixed host ?sp (occurrences ?out)"
    unfolding oo fixed_append
    using fixed_subst tail_occurrences_fixed [OF fin ch] by simp
  from apply_occs_result [OF r]
  have h0: "host_values (occurrences args) = [] \<longrightarrow> host = default_host env"
    and p0: "port_texts (occurrences args) = [] \<longrightarrow> port = dp"
    by (auto simp: last_opt_def)
  have hv: "host_values (occurrences ?out) = [] \<longrightarrow> host_values (occurrences args) = []"
    by (simp add: oo oa host_values_append host_values_subst)
  have pv: "port_texts (occurrences ?out) = [] \<longrightarrow> port_texts (occurrences args) = []"
    by (simp add: oo oa port_texts_append port_texts_subst)
  have h1: "(if host_values (occurrences ?out) = [] then default_host env else host) = host"
    using h0 hv by (cases "host_values (occurrences ?out) = []") simp_all
  have p1: "(if port_texts (occurrences ?out) = [] then dp else port) = port"
    using p0 pv by (cases "port_texts (occurrences ?out) = []") simp_all
  note e = apply_occs_fixed [OF fx py_int_py_str, of "default_host env" dp False False,
      unfolded h1 p1]
  then have "\<exists>x y. apply_occs (occurrences ?out) (default_host env) dp False False =
      Inr (host, port, x, y)"
    by blast
  then obtain x y where "apply_occs (occurrences ?out) (default_host env) dp False False =
      Inr (host, port, x, y)" by blast
  then have "parse_connection_args env ?out = Inr (host, port, ?out, x, y)"
    by (simp add: parse_connection_args_occs dp)
  then show ?thesis unfolding rem by blast
qed


theorem rewrite_same_endpoint_reparses_witness:
  "parse_connection_args Map.empty
       [''-h'', ''db1'', ''-d'', ''host=db2 port=6000 dbname=x'', ''-p'', ''5433''] =
     Inr (''db2'', 5433,
          [''-h'', ''db1'', ''-d'', ''host=db2 port=6000 dbname=x'', ''-p'', ''5433''],
          True, True)
   \<and> plain_host ''db2''
   \<and> build_tunneled_args
       [''-h'', ''db1'', ''-d'', ''host=db2 port=6000 dbname=x'', ''-p'', ''5433'']
       ''db2'' 5433 ''db2'' 5433 True True =
     [''-h'', ''db2'', ''-d'', ''host=db2 port=5433 dbname=x'', ''-p'', ''5433'']
   \<and> (\<exists>has_host' has_port'.
        parse_connection_args Map.empty
          [''-h'', ''db2'', ''-d'', ''host=db2 port=5433 dbname=x'', ''-p'', ''5433''] =
        Inr (''db2'', 5433,
             [''-h'', ''db2'', ''-d'', ''host=db2 port=5433 dbname=x'', ''-p'', ''5433''],
             has_host', has_port'))"
proof -
  have p: "parse_connection_args Map.empty
       [''-h'', ''db1'', ''-d'', ''host=db2 port=6000 dbname=x'', ''-p'', ''5433''] =
     Inr (''db2'', 5433,
          [''-h'', ''db1'', ''-d'', ''host=db2 port=6000 dbname=x'', ''-p'', ''5433''],
          True, True)"
    by (simp add: eval_defs)
  have ph: "plain_host ''db2''"
    by (simp add: plain_host_def ws_free_def isspace_def startswith_def)
  have b: "build_tunneled_args
       [''-h'', ''db1'', ''-d'', ''host=db2 port=6000 dbname=x'', ''-p'', ''5433'']
       ''db2'' 5433 ''db2'' 5433 True True =
     [''-h'', ''db2'', ''-d'', ''host=db2 port=5433 dbname=x'', ''-p'', ''5433'']"
    by (simp add: eval_defs)
  from rewrite_same_endpoint_reparses [OF p ph, unfolded b] p ph b show ?thesis by blast
qed

text \<open>
  A host flag's value may contain whitespace. Written into a connection string that
  precedes the flag, it is split into fields when parsed again; here the second field is a
  \<open>port=\<close> that is not a number, and parsing the rewritten tokens fails.
\<close>

theorem host_with_space_counterexample:
  "parse_connection_args Map.empty [''-d'', ''host=a'', ''-h'', ''x port=abc''] =
     Inr (''x port=abc'', 5432, [''-d'', ''host=a'', ''-h'', ''x port=abc''], True, False)
   \<and> build_tunneled_args [''-d'', ''host=a'', ''-h'', ''x port=abc'']
       ''x port=abc'' 5432 ''x port=abc'' 5432 True False =
     [''-d'', ''host=x port=abc'', ''-h'', ''x port=abc'', ''-p'', ''5432'']
   \<and> parse_connection_args Map.empty
       [''-d'', ''host=x port=abc'', ''-h'', ''x port=abc'', ''-p'', ''5432''] =
     Inl (ValueError ''abc'')"
  by (simp add: eval_defs)

text \<open>
  The condition on the dash: a \<open>-d\<close> without a value takes the appended \<open>-h\<close> as its
  value, and the host that follows is read as a token of its own.
\<close>

lemma host_with_dash_changes:
  "parse_connection_args [''PGHOST'' \<mapsto> ''--host=x''] [''-p'', ''1'', ''-d''] =
     Inr (''--host=x'', 1, [''-p'', ''1'', ''-d''], False, True)
   \<and> build_tunneled_args [''-p'', ''1'', ''-d''] ''--host=x'' 1 ''--host=x'' 1 False True =
     [''-p'', ''1'', ''-d'', ''-h'', ''--host=x'']
   \<and> parse_connection_args [''PGHOST'' \<mapsto> ''--host=x'']
       [''-p'', ''1'', ''-d'', ''-h'', ''--host=x''] =
     Inr (''x'', 1, [''-p'', ''1'', ''-d'', ''-h'', ''--host=x''], True, True)"
  by (simp add: eval_defs)

section \<open>Properties of the command\<close>

subsection \<open>Resolution order\<close>




subsection \<open>Exit codes\<close>

text \<open>
  C8, as the code has it. The exit of every invocation whose tokens parse and whose rule
  lookup returns. When a tunnel URL was found and the set-up fails (the capability is
  missing, creating or starting the forwarder raises an \<open>Exception\<close>, or the bind is
  reported not active), the process exits with code 1 and \<open>subprocess.run\<close> is never
  called. When no tunnel is needed or the set-up succeeds, the wrapped command is invoked
  and the process exits with the command's own return code, with 1 if the executable is
  missing, and with 130 if the user interrupts the command; in each case \<open>stop_tunnel\<close>
  has run before the exit: the manager has no active tunnel, and a started forwarder was
  stopped exactly once, as the last call. When the user interrupts the handshake, the
  \<open>KeyboardInterrupt\<close> leaves the command: there is no exit code 130 from the program,
  the wrapped command is not invoked, and the forwarder is not stopped, active or not.
  When the user interrupts the creation of the forwarder, or the tunnel URL or its port
  cannot be read, the exception leaves the command before any call to the forwarder or
  to the wrapped command.
\<close>

theorem cli_exit_codes:
  assumes "parse_connection_args env args = Inr (host, port, remaining, hh, hp)"
    and "find_tunnel_url fullmatch (get_tunnel_manager_from_config cfg ssh_tunnel)
           (Some host) dsn_alias = Inr url"
    and "cli fullmatch env cfg w ssh_tunnel dsn_alias args = (ex, mo, tr)"
  shows "(truthy url \<and> setup_fails w \<longrightarrow> ex = SysExit 1 \<and> \<not> invoked tr)
     \<and> (\<not> truthy url \<or> setup_succeeds w \<longrightarrow>
          (\<forall>rc. run_result w = Returned rc \<longrightarrow> ex = SysExit rc)
          \<and> (run_result w = FileNotFound \<longrightarrow> ex = SysExit 1)
          \<and> (run_result w = Interrupted \<longrightarrow> ex = SysExit 130)
          \<and> invoked tr
          \<and> (\<exists>m. mo = Some m \<and> \<not> active m)
          \<and> stops tr = (if truthy url then 1 else 0)
          \<and> (truthy url \<longrightarrow> last tr = ForwarderStop))
     \<and> (\<forall>left. truthy url \<and> ssh_tunnel_support w \<and> forwarder_start w = StartInterrupted left \<longrightarrow>
          ex = Raised KeyboardInterrupt \<and> \<not> invoked tr \<and> stops tr = 0
          \<and> (\<exists>m. mo = Some m \<and> active m = left))
     \<and> (truthy url \<and> ssh_tunnel_support w \<and> forwarder_start w = ConstructorInterrupted \<longrightarrow>
          ex = Raised KeyboardInterrupt \<and> tr = [])
     \<and> (truthy url \<and> ssh_tunnel_support w \<and> forwarder_start w = UrlPortInvalid \<longrightarrow>
          (\<exists>t. ex = Raised (ValueError t)) \<and> tr = [])"
proof -
  let ?m = "get_tunnel_manager_from_config cfg ssh_tunnel"
  have t0: "tunnel ?m = None"
    by (rule manager_from_config_tunnel)
  show ?thesis
  proof (cases "truthy url")
    case False
    with assms t0 show ?thesis
      by (auto simp: cli_def start_tunnel_def Let_def invoked_def stops_def active_def
          split: run_outcome.splits)
  next
    case True
    show ?thesis
    proof (cases "ssh_tunnel_support w")
      case False
      with True assms show ?thesis
        by (auto simp: cli_def start_tunnel_def setup_fails_def setup_succeeds_def invoked_def)
    next
      case sup: True
      show ?thesis
      proof (cases "forwarder_start w")
        case UrlPortInvalid
        with True sup assms show ?thesis
          by (auto simp: cli_def start_tunnel_def setup_fails_def setup_succeeds_def invoked_def)
      next
        case ConstructorRaises
        with True sup assms show ?thesis
          by (auto simp: cli_def start_tunnel_def setup_fails_def setup_succeeds_def invoked_def)
      next
        case ConstructorInterrupted
        with True sup assms show ?thesis
          by (auto simp: cli_def start_tunnel_def setup_fails_def setup_succeeds_def invoked_def)
      next
        case StartRaises
        with True sup assms show ?thesis
          by (auto simp: cli_def start_tunnel_def setup_fails_def setup_succeeds_def invoked_def)
      next
        case (StartInterrupted left)
        with True sup assms show ?thesis
          by (auto simp: cli_def start_tunnel_def setup_fails_def setup_succeeds_def invoked_def
              stops_def active_def)
      next
        case (StartReturns act lp)
        with True sup assms show ?thesis
          by (auto simp: cli_def start_tunnel_def setup_fails_def setup_succeeds_def invoked_def
              Let_def stops_def active_def split: run_outcome.splits)
      qed
    qed
  qed
qed

theorem cli_exit_codes_witness:
  "parse_connection_args Map.empty [''-h'', ''db.prod.com''] =
     Inr (''db.prod.com'', 5432, [''-h'', ''db.prod.com''], True, False)
   \<and> find_tunnel_url fragment_matcher (get_tunnel_manager_from_config bastion_config None)
        (Some ''db.prod.com'') None = Inr (Some ''ssh://bastion:22'')
   \<and> truthy (Some ''ssh://bastion:22'') \<and> setup_fails scenario_E
   \<and> fst (cli fragment_matcher Map.empty bastion_config scenario_E None None
        [''-h'', ''db.prod.com'']) = SysExit 1
   \<and> \<not> invoked (snd (snd (cli fragment_matcher Map.empty bastion_config scenario_E None None
        [''-h'', ''db.prod.com''])))
   \<and> setup_succeeds tunnel_world
   \<and> cli fragment_matcher Map.empty bastion_config
        tunnel_world
        None None [''-h'', ''db.prod.com''] =
      (SysExit 3,
       Some (get_tunnel_manager_from_config bastion_config None),
       [ForwarderStart,
        RunCommand [''/usr/bin/pg_dumpall'', ''-h'', ''127.0.0.1'', ''-p'', ''55123''],
        ForwarderStop])
   \<and> setup_succeeds interrupted_command \<and> run_result interrupted_command = Interrupted
   \<and> fst (cli fragment_matcher Map.empty bastion_config interrupted_command None None
        [''-h'', ''db.prod.com'']) = SysExit 130
   \<and> stops (snd (snd (cli fragment_matcher Map.empty bastion_config interrupted_command None None
        [''-h'', ''db.prod.com'']))) = 1
   \<and> ssh_tunnel_support interrupted_handshake
   \<and> forwarder_start interrupted_handshake = StartInterrupted True
   \<and> fst (cli fragment_matcher Map.empty bastion_config interrupted_handshake None None
        [''-h'', ''db.prod.com'']) = Raised KeyboardInterrupt
   \<and> stops (snd (snd (cli fragment_matcher Map.empty bastion_config interrupted_handshake None None
        [''-h'', ''db.prod.com'']))) = 0"
proof -
  have p: "parse_connection_args Map.empty [''-h'', ''db.prod.com''] =
     Inr (''db.prod.com'', 5432, [''-h'', ''db.prod.com''], True, False)"
    by (simp add: eval_defs)
  have f: "find_tunnel_url fragment_matcher (get_tunnel_manager_from_config bastion_config None)
        (Some ''db.prod.com'') None = Inr (Some ''ssh://bastion:22'')"
    by code_simp
  have sf: "setup_fails scenario_E" by (simp add: setup_fails_def scenario_E_def)
  have ss: "setup_succeeds tunnel_world" by (simp add: setup_succeeds_def tunnel_world_def)
  have si: "setup_succeeds interrupted_command" "run_result interrupted_command = Interrupted"
    by (simp_all add: setup_succeeds_def interrupted_command_def)
  have sh: "ssh_tunnel_support interrupted_handshake"
    "forwarder_start interrupted_handshake = StartInterrupted True"
    by (simp_all add: interrupted_handshake_def)
  have c: "cli fragment_matcher Map.empty bastion_config
        tunnel_world
        None None [''-h'', ''db.prod.com''] =
      (SysExit 3,
       Some (get_tunnel_manager_from_config bastion_config None),
       [ForwarderStart,
        RunCommand [''/usr/bin/pg_dumpall'', ''-h'', ''127.0.0.1'', ''-p'', ''55123''],
        ForwarderStop])"
  proof -
    have st: "start_tunnel fragment_matcher (get_tunnel_manager_from_config bastion_config None)
        ''db.prod.com'' 5432 None
        tunnel_world [] =
      (Normal (''127.0.0.1'', 55123),
       (get_tunnel_manager_from_config bastion_config None)
         \<lparr>tunnel := Some \<lparr>is_active = True, local_bind_port = 55123\<rparr>\<rparr>,
       [ForwarderStart])"
      by (simp add: start_tunnel_def f tunnel_world_def)
    have b: "build_tunneled_args [''-h'', ''db.prod.com''] ''127.0.0.1'' 55123
        ''db.prod.com'' 5432 True False = [''-h'', ''127.0.0.1'', ''-p'', ''55123'']"
      by (simp add: eval_defs)
    have g: "(get_tunnel_manager_from_config bastion_config None)\<lparr>tunnel := None\<rparr> =
        get_tunnel_manager_from_config bastion_config None"
      by (simp add: get_tunnel_manager_from_config_def Let_def)
    show ?thesis
    proof -
      have w: "pg_dumpall_path tunnel_world = ''/usr/bin/pg_dumpall''"
        "run_result tunnel_world = Returned 3"
        by (simp_all add: tunnel_world_def)
      show ?thesis
        by (simp add: cli_def p st b g w Let_def)
    qed
  qed
  obtain ex mo tr where e: "cli fragment_matcher Map.empty bastion_config scenario_E None None
      [''-h'', ''db.prod.com''] = (ex, mo, tr)"
    by (cases "cli fragment_matcher Map.empty bastion_config scenario_E None None
      [''-h'', ''db.prod.com'']") auto
  from cli_exit_codes [OF p f e] sf have 1: "ex = SysExit 1 \<and> \<not> invoked tr" by simp
  obtain ex2 mo2 tr2 where e2: "cli fragment_matcher Map.empty bastion_config interrupted_command
      None None [''-h'', ''db.prod.com''] = (ex2, mo2, tr2)"
    by (cases "cli fragment_matcher Map.empty bastion_config interrupted_command None None
      [''-h'', ''db.prod.com'']") auto
  from cli_exit_codes [OF p f e2] si have 2: "ex2 = SysExit 130 \<and> stops tr2 = 1" by simp
  obtain ex3 mo3 tr3 where e3: "cli fragment_matcher Map.empty bastion_config interrupted_handshake
      None None [''-h'', ''db.prod.com''] = (ex3, mo3, tr3)"
    by (cases "cli fragment_matcher Map.empty bastion_config interrupted_handshake None None
      [''-h'', ''db.prod.com'']") auto
  from cli_exit_codes [OF p f e3] sh have 3: "ex3 = Raised KeyboardInterrupt \<and> stops tr3 = 0"
    by auto
  from e e2 e3 1 2 3 p f sf ss si sh c show ?thesis by simp
qed

text \<open>
  The interruption the specification promises a fixed code and a teardown for is handled
  only around \<open>subprocess.run\<close>. Interrupted during the handshake, with the forwarder left
  active, the command ends with the \<open>KeyboardInterrupt\<close>, not with code 130, and the
  forwarder is never stopped.
\<close>

theorem handshake_interrupt_counterexample:
  "cli fragment_matcher Map.empty bastion_config interrupted_handshake None None
      [''-h'', ''db.prod.com''] =
     (Raised KeyboardInterrupt,
      Some ((get_tunnel_manager_from_config bastion_config None)
         \<lparr>tunnel := Some \<lparr>is_active = True, local_bind_port = 0\<rparr>\<rparr>),
      [ForwarderStart])
   \<and> fst (cli fragment_matcher Map.empty bastion_config interrupted_handshake None None
      [''-h'', ''db.prod.com'']) \<noteq> SysExit 130
   \<and> stops (snd (snd (cli fragment_matcher Map.empty bastion_config interrupted_handshake None None
      [''-h'', ''db.prod.com'']))) = 0"
proof -
  have p: "parse_connection_args Map.empty [''-h'', ''db.prod.com''] =
     Inr (''db.prod.com'', 5432, [''-h'', ''db.prod.com''], True, False)"
    by (simp add: eval_defs)
  have f: "find_tunnel_url fragment_matcher (get_tunnel_manager_from_config bastion_config None)
        (Some ''db.prod.com'') None = Inr (Some ''ssh://bastion:22'')"
    by code_simp
  have st: "start_tunnel fragment_matcher (get_tunnel_manager_from_config bastion_config None)
        ''db.prod.com'' 5432 None interrupted_handshake [] =
      (Raised KeyboardInterrupt,
       (get_tunnel_manager_from_config bastion_config None)
         \<lparr>tunnel := Some \<lparr>is_active = True, local_bind_port = 0\<rparr>\<rparr>,
       [ForwarderStart])"
    by (simp add: start_tunnel_def f interrupted_handshake_def)
  have c: "cli fragment_matcher Map.empty bastion_config interrupted_handshake None None
      [''-h'', ''db.prod.com''] =
     (Raised KeyboardInterrupt,
      Some ((get_tunnel_manager_from_config bastion_config None)
         \<lparr>tunnel := Some \<lparr>is_active = True, local_bind_port = 0\<rparr>\<rparr>),
      [ForwarderStart])"
    by (simp add: cli_def p st)
  show ?thesis
    unfolding c by (simp add: stops_def)
qed

end
